theory Spec2Isabelle
  imports Complex_Main "HOL-Library.Word"
begin

section \<open>Numbers of the dithering engine\<close>

text \<open>
  A JavaScript number is an IEEE 754 binary64 value: \<open>NaN\<close>, an infinity, or a finite
  value, which is a rational. The two zeros are one value here: the engine never divides,
  and the sign of a zero changes no comparison and no finite result. Every arithmetic
  operation yields the exact result rounded to binary64, and a store into a
  \<open>Float32Array\<close> rounds once more, to binary32.
\<close>

datatype jsnum = NaN | PInf | MInf | Val rat

text \<open>\<open>2\<close> to an integer power.\<close>

definition pow2 :: "int \<Rightarrow> rat" where
  "pow2 k = (if 0 \<le> k then 2 ^ nat k else 1 / 2 ^ nat (- k))"

text \<open>The number of binary digits of a positive integer.\<close>

fun bits :: "int \<Rightarrow> int" where
  "bits n = (if n \<le> 0 then 0 else 1 + bits (n div 2))"

declare bits.simps [simp del]

text \<open>
  The exponent of a positive rational \<open>m\<close>: the \<open>e\<close> with \<open>2 ^ e \<le> m < 2 ^ (e + 1)\<close>. From
  \<open>1\<close> on it is read off the integer part of \<open>m\<close>; below \<open>1\<close> the integer part of \<open>1 / m\<close>
  gives the \<open>k\<close> with \<open>m * 2 ^ k \<le> 1 < m * 2 ^ (k + 1)\<close>, and the exponent is \<open>- k\<close> when
  \<open>m * 2 ^ k = 1\<close> and \<open>- k - 1\<close> otherwise.
\<close>

definition exponent :: "rat \<Rightarrow> int" where
  "exponent m =
    (if 1 \<le> m then bits \<lfloor>m\<rfloor> - 1
     else (let k = bits \<lfloor>1 / m\<rfloor> - 1 in if m * 2 ^ nat k < 1 then - k - 1 else - k))"

text \<open>The integer nearest to a rational, a tie going to the even one.\<close>

definition round_even :: "rat \<Rightarrow> int" where
  "round_even r =
    (let f = \<lfloor>r\<rfloor>; d = r - of_int f
     in if d < 1 / 2 then f else if 1 / 2 < d then f + 1 else if even f then f else f + 1)"

text \<open>
  Rounding to the binary format with \<open>p\<close> bits of precision, least quantum \<open>2 ^ qmin\<close> and
  largest exponent \<open>emax\<close>, to nearest with ties to even. The quantum \<open>q\<close> is the one of the
  binade of \<open>r\<close>, or the least one below the normal range; the magnitude of \<open>r\<close> goes to the
  nearest multiple \<open>n * q\<close>. The result is an infinity when the exponent of \<open>r\<close> is beyond
  \<open>emax\<close>, or is \<open>emax\<close> and the rounding carries to \<open>2 ^ (emax + 1)\<close>.
\<close>

definition to_format :: "nat \<Rightarrow> int \<Rightarrow> int \<Rightarrow> rat \<Rightarrow> jsnum" where
  "to_format p qmin emax r =
    (if r = 0 then Val 0
     else (let e = exponent \<bar>r\<bar>;
               q = pow2 (max (e - int p + 1) qmin);
               n = round_even (\<bar>r\<bar> / q)
           in if emax < e \<or> (e = emax \<and> n = 2 ^ p) then (if 0 < r then PInf else MInf)
              else Val (sgn r * of_int n * q)))"

text \<open>binary64, the format of every number and of every arithmetic result.\<close>

definition to_double :: "rat \<Rightarrow> jsnum" where
  "to_double r = to_format 53 (- 1074) 1023 r"

text \<open>binary32, the format of the entries of a \<open>Float32Array\<close>.\<close>

definition to_float32 :: "rat \<Rightarrow> jsnum" where
  "to_float32 r = to_format 24 (- 149) 127 r"

text \<open>\<open>a + b\<close>: the exact sum, rounded; \<open>NaN\<close> is absorbing and the sum of the two
  infinities is \<open>NaN\<close>.\<close>

fun js_add :: "jsnum \<Rightarrow> jsnum \<Rightarrow> jsnum" where
  "js_add (Val a) (Val b) = to_double (a + b)"
| "js_add NaN b = NaN"
| "js_add a NaN = NaN"
| "js_add PInf MInf = NaN"
| "js_add MInf PInf = NaN"
| "js_add PInf b = PInf"
| "js_add a PInf = PInf"
| "js_add MInf b = MInf"
| "js_add a MInf = MInf"

text \<open>\<open>a - b\<close>: the exact difference, rounded.\<close>

fun js_sub :: "jsnum \<Rightarrow> jsnum \<Rightarrow> jsnum" where
  "js_sub (Val a) (Val b) = to_double (a - b)"
| "js_sub NaN b = NaN"
| "js_sub a NaN = NaN"
| "js_sub PInf PInf = NaN"
| "js_sub MInf MInf = NaN"
| "js_sub PInf b = PInf"
| "js_sub a MInf = PInf"
| "js_sub MInf b = MInf"
| "js_sub a PInf = MInf"

text \<open>\<open>a * b\<close>: the exact product, rounded; an infinity times zero is \<open>NaN\<close>.\<close>

fun js_mul :: "jsnum \<Rightarrow> jsnum \<Rightarrow> jsnum" where
  "js_mul (Val a) (Val b) = to_double (a * b)"
| "js_mul NaN b = NaN"
| "js_mul a NaN = NaN"
| "js_mul PInf (Val b) = (if b = 0 then NaN else if 0 < b then PInf else MInf)"
| "js_mul MInf (Val b) = (if b = 0 then NaN else if 0 < b then MInf else PInf)"
| "js_mul (Val a) PInf = (if a = 0 then NaN else if 0 < a then PInf else MInf)"
| "js_mul (Val a) MInf = (if a = 0 then NaN else if 0 < a then MInf else PInf)"
| "js_mul PInf PInf = PInf"
| "js_mul MInf MInf = PInf"
| "js_mul PInf MInf = MInf"
| "js_mul MInf PInf = MInf"

text \<open>\<open>a < b\<close>: false whenever an operand is \<open>NaN\<close>.\<close>

fun js_less :: "jsnum \<Rightarrow> jsnum \<Rightarrow> bool" where
  "js_less (Val a) (Val b) = (a < b)"
| "js_less NaN b = False"
| "js_less a NaN = False"
| "js_less a MInf = False"
| "js_less PInf b = False"
| "js_less MInf b = True"
| "js_less a PInf = True"

text \<open>What a store into a \<open>Float32Array\<close> keeps of a number: its rounding to binary32.\<close>

fun store32 :: "jsnum \<Rightarrow> jsnum" where
  "store32 (Val r) = to_float32 r"
| "store32 v = v"

text \<open>The value that \<open>grayscale[j] += c\<close> stores when the entry holds \<open>v\<close>: the binary64 sum,
  rounded to binary32 by the store.\<close>

definition plus_assign :: "jsnum \<Rightarrow> jsnum \<Rightarrow> jsnum" where
  "plus_assign v c = store32 (js_add v c)"

section \<open>The Sierra kernel\<close>

text \<open>\<open>this.matrix\<close> of the constructor of \<open>SierraDithering\<close>, row by row. Every entry
  is a multiple of \<open>1/32\<close> and so is the binary64 value that the division yields.\<close>

definition matrix :: "rat list list" where
  "matrix =
    [[0, 0, 5/32, 3/32],
     [2/32, 4/32, 5/32, 4/32, 2/32],
     [0, 2/32, 3/32, 2/32, 0]]"

text \<open>\<open>grayscale[j] += c\<close> on the \<open>Float32Array\<close>. A typed array ignores a write beyond
  its length, as list update does.\<close>

definition add_at :: "jsnum list \<Rightarrow> nat \<Rightarrow> jsnum \<Rightarrow> jsnum list" where
  "add_at grayscale j c = grayscale[j := plus_assign (grayscale ! j) c]"

text \<open>
  \<open>distributeErrorGrayscale(grayscale, x, y, width, height, error)\<close>. The coordinates
  are loop counters, hence natural numbers; the source's guards \<open>x - 2 >= 0\<close> and
  \<open>x - 1 >= 0\<close> are written \<open>2 \<le> x\<close> and \<open>1 \<le> x\<close>, so that \<open>x - 2\<close> and \<open>x - 1\<close> are
  only formed where they do not truncate.
\<close>

definition distributeErrorGrayscale ::
  "jsnum list \<Rightarrow> nat \<Rightarrow> nat \<Rightarrow> nat \<Rightarrow> nat \<Rightarrow> jsnum \<Rightarrow> jsnum list" where
  "distributeErrorGrayscale grayscale x y width height error =
    (let g1 = (if x + 2 < width
               then add_at grayscale (y * width + (x + 2)) (js_mul error (Val (matrix ! 0 ! 2)))
               else grayscale);
         g2 = (if x + 3 < width
               then add_at g1 (y * width + (x + 3)) (js_mul error (Val (matrix ! 0 ! 3)))
               else g1);
         g3 = (if y + 1 < height
               then
                 (let r1 = (if 2 \<le> x
                            then add_at g2 ((y + 1) * width + (x - 2)) (js_mul error (Val (matrix ! 1 ! 0)))
                            else g2);
                      r2 = (if 1 \<le> x
                            then add_at r1 ((y + 1) * width + (x - 1)) (js_mul error (Val (matrix ! 1 ! 1)))
                            else r1);
                      r3 = add_at r2 ((y + 1) * width + x) (js_mul error (Val (matrix ! 1 ! 2)));
                      r4 = (if x + 1 < width
                            then add_at r3 ((y + 1) * width + (x + 1)) (js_mul error (Val (matrix ! 1 ! 3)))
                            else r3)
                  in (if x + 2 < width
                      then add_at r4 ((y + 1) * width + (x + 2)) (js_mul error (Val (matrix ! 1 ! 4)))
                      else r4))
               else g2)
     in (if y + 2 < height
         then
           (let s1 = (if 1 \<le> x
                      then add_at g3 ((y + 2) * width + (x - 1)) (js_mul error (Val (matrix ! 2 ! 1)))
                      else g3);
                s2 = add_at s1 ((y + 2) * width + x) (js_mul error (Val (matrix ! 2 ! 2)))
            in (if x + 1 < width
                then add_at s2 ((y + 2) * width + (x + 1)) (js_mul error (Val (matrix ! 2 ! 3)))
                else s2))
         else g3))"

section \<open>The engine\<close>

text \<open>
  The \<open>ImageData\<close> that \<open>process\<close> receives: \<open>width\<close> and \<open>height\<close> are unsigned,
  \<open>data\<close> is a \<open>Uint8ClampedArray\<close> of interleaved RGBA bytes.
\<close>

record imageData =
  width :: nat
  height :: nat
  data :: "8 word list"

text \<open>\<open>data[idx]\<close> as an operand of arithmetic: a read beyond the length of a typed
  array is \<open>undefined\<close>, which arithmetic turns into \<open>NaN\<close>.\<close>

definition channel :: "8 word list \<Rightarrow> nat \<Rightarrow> jsnum" where
  "channel d idx = (if idx < length d then Val (of_nat (unat (d ! idx))) else NaN)"

text \<open>\<open>grayscale[i]\<close> as an operand: \<open>undefined\<close> beyond the length, \<open>NaN\<close> in
  arithmetic and false in a comparison.\<close>

definition gray_at :: "jsnum list \<Rightarrow> nat \<Rightarrow> jsnum" where
  "gray_at grayscale i = (if i < length grayscale then grayscale ! i else NaN)"

text \<open>The literals \<open>0.299\<close>, \<open>0.587\<close> and \<open>0.114\<close>: the binary64 values nearest to them.\<close>

definition c299 :: jsnum where
  "c299 = to_double (299 / 1000)"

definition c587 :: jsnum where
  "c587 = to_double (587 / 1000)"

definition c114 :: jsnum where
  "c114 = to_double (114 / 1000)"

text \<open>\<open>0.299 * R + 0.587 * G + 0.114 * B\<close> for three numbers, in the order in which
  JavaScript evaluates it.\<close>

definition weighted_sum :: "jsnum \<Rightarrow> jsnum \<Rightarrow> jsnum \<Rightarrow> jsnum" where
  "weighted_sum r g b = js_add (js_add (js_mul c299 r) (js_mul c587 g)) (js_mul c114 b)"

text \<open>The body of the first loop of \<open>process\<close>: the number \<open>gray\<close> of pixel \<open>i\<close>.\<close>

definition gray :: "8 word list \<Rightarrow> nat \<Rightarrow> jsnum" where
  "gray d i =
    (let idx = i * 4
     in weighted_sum (channel d idx) (channel d (idx + 1)) (channel d (idx + 2)))"

text \<open>The luminance of pixel \<open>i\<close>: what \<open>grayscale[i] = gray\<close> leaves in the buffer.\<close>

definition luminance :: "8 word list \<Rightarrow> nat \<Rightarrow> jsnum" where
  "luminance d i = store32 (gray d i)"

text \<open>The first loop of \<open>process\<close>, over a fresh \<open>Float32Array(width * height)\<close>,
  which starts as zeros.\<close>

definition to_grayscale :: "nat \<Rightarrow> nat \<Rightarrow> 8 word list \<Rightarrow> jsnum list" where
  "to_grayscale w h d =
    fold (\<lambda>i grayscale. grayscale[i := store32 (gray d i)]) [0..<w * h]
      (replicate (w * h) (Val 0))"

text \<open>The body of the nested loops of \<open>process\<close> at \<open>(x, y)\<close>, on the pair of the
  luminance buffer and the pixel data. A write beyond the length of \<open>data\<close> is ignored.\<close>

definition dither_pixel ::
  "nat \<Rightarrow> nat \<Rightarrow> nat \<Rightarrow> nat \<Rightarrow> jsnum list \<times> 8 word list \<Rightarrow> jsnum list \<times> 8 word list" where
  "dither_pixel w h y x s =
    (case s of (grayscale, d) \<Rightarrow>
      (let i = y * w + x;
           idx = i * 4;
           oldPixel = gray_at grayscale i;
           newPixel = (if js_less oldPixel (Val 60) then 0 else 255 :: rat);
           error = js_sub oldPixel (Val newPixel);
           d' = (if newPixel = 0
                 then d[idx := 0, idx + 1 := 0, idx + 2 := 0, idx + 3 := 255]
                 else d[idx := 0, idx + 1 := 0, idx + 2 := 0, idx + 3 := 0])
       in (distributeErrorGrayscale grayscale x y w h error, d')))"

text \<open>\<open>process(imageData)\<close>: the conversion to luminance, then the scan, rows outside
  and columns inside; the result is the same object with its \<open>data\<close> rewritten.\<close>

definition process :: "imageData \<Rightarrow> imageData" where
  "process imageData =
    (let w = width imageData;
         h = height imageData;
         d = data imageData;
         grayscale = to_grayscale w h d;
         s = fold (\<lambda>y. fold (\<lambda>x. dither_pixel w h y x) [0..<w]) [0..<h] (grayscale, d)
     in imageData\<lparr>data := snd s\<rparr>)"

text \<open>
  The state of the scan before pixel \<open>n\<close> in row-major order: the luminance buffer and
  the pixel data after the loop body has run on the pixels \<open>0, \<dots>, n - 1\<close>, pixel \<open>i\<close>
  being the one at column \<open>i mod w\<close> of row \<open>i div w\<close>.
\<close>

definition scan_state :: "imageData \<Rightarrow> nat \<Rightarrow> jsnum list \<times> 8 word list" where
  "scan_state img n =
    (let w = width img; h = height img
     in fold (\<lambda>i. dither_pixel w h (i div w) (i mod w)) [0..<n]
          (to_grayscale w h (data img), data img))"

text \<open>What the loop body computes at pixel \<open>i\<close>: the luminance it reads, the level it
  chooses and the quantisation error it diffuses.\<close>

definition oldPixel_at :: "imageData \<Rightarrow> nat \<Rightarrow> jsnum" where
  "oldPixel_at img i = gray_at (fst (scan_state img i)) i"

definition newPixel_at :: "imageData \<Rightarrow> nat \<Rightarrow> rat" where
  "newPixel_at img i = (if js_less (oldPixel_at img i) (Val 60) then 0 else 255)"

definition error_at :: "imageData \<Rightarrow> nat \<Rightarrow> jsnum" where
  "error_at img i = js_sub (oldPixel_at img i) (Val (newPixel_at img i))"

text \<open>The four channels of pixel \<open>i\<close> of a data buffer.\<close>

definition rgba :: "8 word list \<Rightarrow> nat \<Rightarrow> 8 word list" where
  "rgba d i = [d ! (i * 4), d ! (i * 4 + 1), d ! (i * 4 + 2), d ! (i * 4 + 3)]"

subsection \<open>The kernel as a list of guarded writes\<close>

text \<open>One guarded statement \<open>if (b) grayscale[cy * width + cx] += c\<close>.\<close>

definition add_if :: "bool \<Rightarrow> jsnum list \<Rightarrow> nat \<Rightarrow> nat \<Rightarrow> nat \<Rightarrow> jsnum \<Rightarrow> jsnum list" where
  "add_if b g w cx cy c = (if b then add_at g (cy * w + cx) c else g)"

text \<open>The ten statements of \<open>distributeErrorGrayscale\<close> in their order: the guard under
  which each runs, the column and row it writes to, and its entry of \<open>this.matrix\<close>.\<close>

definition kernel_writes :: "nat \<Rightarrow> nat \<Rightarrow> nat \<Rightarrow> nat \<Rightarrow> (bool \<times> nat \<times> nat \<times> rat) list" where
  "kernel_writes x y w h =
    [(x + 2 < w, x + 2, y, 5/32),
     (x + 3 < w, x + 3, y, 3/32),
     (y + 1 < h \<and> 2 \<le> x, x - 2, y + 1, 2/32),
     (y + 1 < h \<and> 1 \<le> x, x - 1, y + 1, 4/32),
     (y + 1 < h, x, y + 1, 5/32),
     (y + 1 < h \<and> x + 1 < w, x + 1, y + 1, 4/32),
     (y + 1 < h \<and> x + 2 < w, x + 2, y + 1, 2/32),
     (y + 2 < h \<and> 1 \<le> x, x - 1, y + 2, 2/32),
     (y + 2 < h, x, y + 2, 3/32),
     (y + 2 < h \<and> x + 1 < w, x + 1, y + 2, 2/32)]"

definition apply_writes ::
  "nat \<Rightarrow> jsnum \<Rightarrow> (bool \<times> nat \<times> nat \<times> rat) list \<Rightarrow> jsnum list \<Rightarrow> jsnum list" where
  "apply_writes w e ws g =
    fold (\<lambda>(b, cx, cy, wt) g. add_if b g w cx cy (js_mul e (Val wt))) ws g"

subsection \<open>The kernel of the specification\<close>

text \<open>The table of the specification: row offset, column offset, weight.\<close>

definition sierra_kernel :: "((int \<times> int) \<times> rat) list" where
  "sierra_kernel =
    [((0, 2), 5/32), ((0, 3), 3/32),
     ((1, -2), 2/32), ((1, -1), 4/32), ((1, 0), 5/32), ((1, 1), 4/32), ((1, 2), 2/32),
     ((2, -1), 2/32), ((2, 0), 3/32), ((2, 1), 2/32)]"

definition kernel_weight :: "int \<Rightarrow> int \<Rightarrow> rat option" where
  "kernel_weight dy dx = map_of sierra_kernel (dy, dx)"

text \<open>What the table makes of an entry that holds \<open>v\<close> and lies at the offset \<open>(dy, dx)\<close>
  from the pixel whose error \<open>e\<close> is diffused: \<open>e\<close> times the weight is added to it at an
  offset of the table, and nothing happens to it elsewhere.\<close>

definition kernel_apply :: "int \<Rightarrow> int \<Rightarrow> jsnum \<Rightarrow> jsnum \<Rightarrow> jsnum" where
  "kernel_apply dy dx e v =
    (case kernel_weight dy dx of None \<Rightarrow> v | Some wt \<Rightarrow> plus_assign v (js_mul e (Val wt)))"

subsection \<open>Interior pixels and the weight that stays in the buffer\<close>

text \<open>A pixel is interior when every guard of \<open>distributeErrorGrayscale\<close> holds, that
  is, when all ten targets lie in the buffer.\<close>

definition interior :: "nat \<Rightarrow> nat \<Rightarrow> nat \<Rightarrow> nat \<Rightarrow> bool" where
  "interior x y w h = (2 \<le> x \<and> x + 3 < w \<and> y + 2 < h)"

text \<open>The sum of the weights of the statements whose guard holds at \<open>(x, y)\<close>.\<close>

definition inbounds_weight :: "nat \<Rightarrow> nat \<Rightarrow> nat \<Rightarrow> nat \<Rightarrow> rat" where
  "inbounds_weight x y w h =
    sum_list (map (\<lambda>(b, cx, cy, wt). if b then wt else 0) (kernel_writes x y w h))"

subsection \<open>Quantities of the scan\<close>

text \<open>The luminance buffer when the scan has ended.\<close>

definition final_gray :: "imageData \<Rightarrow> jsnum list" where
  "final_gray img = fst (scan_state img (width img * height img))"

text \<open>What the diffusion of the error of pixel \<open>k\<close> makes of the entry of pixel \<open>j\<close> when that
  entry holds \<open>v\<close>.\<close>

definition diffuse_from :: "imageData \<Rightarrow> nat \<Rightarrow> nat \<Rightarrow> jsnum \<Rightarrow> jsnum" where
  "diffuse_from img j k v =
     kernel_apply (int (j div width img) - int (k div width img))
       (int (j mod width img) - int (k mod width img)) (error_at img k) v"

text \<open>The exact sum of the finite entries of a buffer, and the total error that one call of
  \<open>distributeErrorGrayscale\<close> diffuses: the exact amount by which it changes that sum.\<close>

definition buffer_total :: "jsnum list \<Rightarrow> rat" where
  "buffer_total g = sum_list (map (\<lambda>v. case v of Val r \<Rightarrow> r | _ \<Rightarrow> 0) g)"

definition diffused :: "jsnum list \<Rightarrow> nat \<Rightarrow> nat \<Rightarrow> nat \<Rightarrow> nat \<Rightarrow> jsnum \<Rightarrow> rat" where
  "diffused g x y w h e =
    buffer_total (distributeErrorGrayscale g x y w h e) - buffer_total g"

text \<open>Two data buffers of the same length that agree on every red, green and blue byte,
  and may differ in the alpha bytes only.\<close>

definition same_rgb :: "8 word list \<Rightarrow> 8 word list \<Rightarrow> bool" where
  "same_rgb d d' =
    (length d' = length d \<and> list_all (\<lambda>j. j mod 4 = 3 \<or> d' ! j = d ! j) [0..<length d])"

subsection \<open>The guard of the caller\<close>

text \<open>
  The dimensions that \<open>processCard\<close> gives to the canvas whose \<open>ImageData\<close> it passes to
  \<open>process\<close>: \<open>naturalWidth || width\<close> and \<open>naturalHeight || height\<close> of the image, and
  the early \<open>return\<close> (here \<open>None\<close>) when either is \<open>0\<close>. \<open>process\<close> itself has no
  \<open>throw\<close> and no early \<open>return\<close>: it is a total function of its input.
\<close>

definition processCard_dimensions :: "nat \<Rightarrow> nat \<Rightarrow> nat \<Rightarrow> nat \<Rightarrow> (nat \<times> nat) option" where
  "processCard_dimensions naturalWidth imgWidth naturalHeight imgHeight =
    (let originalWidth = (if naturalWidth \<noteq> 0 then naturalWidth else imgWidth);
         originalHeight = (if naturalHeight \<noteq> 0 then naturalHeight else imgHeight)
     in if originalWidth = 0 \<or> originalHeight = 0 then None
        else Some (originalWidth, originalHeight))"

subsection \<open>Example inputs\<close>

text \<open>A dark pixel followed by a bright one, in one row.\<close>

definition ex_img :: imageData where
  "ex_img = \<lparr>width = 2, height = 1, data = [10, 10, 10, 77, 200, 100, 50, 9]\<rparr>"

text \<open>\<open>ex_img\<close> with other alpha bytes.\<close>

definition ex_alpha :: imageData where
  "ex_alpha = \<lparr>width = 2, height = 1, data = [10, 10, 10, 0, 200, 100, 50, 255]\<rparr>"

text \<open>Three pixels in a row: the third is below the threshold before the scan and above
  it once the error of the first has reached it.\<close>

definition ex_scan :: imageData where
  "ex_scan = \<lparr>width = 3, height = 1,
     data = [50, 50, 50, 255, 50, 50, 50, 255, 55, 55, 55, 255]\<rparr>"

text \<open>One row of four pixels of luminance \<open>10\<close>.\<close>

definition ex_row :: imageData where
  "ex_row = \<lparr>width = 4, height = 1,
     data = [10, 10, 10, 255, 10, 10, 10, 255, 10, 10, 10, 255, 10, 10, 10, 255]\<rparr>"

text \<open>A 6x3 buffer that holds \<open>10\<close> everywhere, and the error of a pixel of luminance
  \<open>124.19999694824219\<close> that is classified as transparent.\<close>

definition ex_buffer :: "jsnum list" where
  "ex_buffer = replicate 18 (Val 10)"

definition ex_error :: jsnum where
  "ex_error = Val (- (8572109 / 65536))"

text \<open>Two pixels in a column: the error of the upper one brings the lower one to the
  binary32 value just below the threshold.\<close>

definition ex_column :: imageData where
  "ex_column = \<lparr>width = 1, height = 2, data = [2, 4, 119, 255, 2, 70, 138, 255]\<rparr>"

section \<open>Evaluating the numbers\<close>

lemma floor_numeral_div [simp]: "\<lfloor>numeral a / numeral b :: rat\<rfloor> = numeral a div numeral b"
  by (metis floor_divide_of_int_eq of_int_numeral)

lemma floor_one_div [simp]: "\<lfloor>1 / numeral b :: rat\<rfloor> = 1 div numeral b"
  by (metis floor_divide_of_int_eq of_int_numeral of_int_1)

lemmas round_defs = to_double_def to_float32_def to_format_def exponent_def bits.simps
  pow2_def round_even_def Let_def

lemma to_double_0 [simp]: "to_double 0 = Val 0"
  by (simp add: to_double_def to_format_def)

lemma to_float32_0 [simp]: "to_float32 0 = Val 0"
  by (simp add: to_float32_def to_format_def)

lemma c299_eq: "c299 = Val (5386305154335113 / 18014398509481984)"
  by (simp add: c299_def round_defs)

lemma c587_eq: "c587 = Val (2643612981266481 / 4503599627370496)"
  by (simp add: c587_def round_defs)

lemma c114_eq: "c114 = Val (8214565720323785 / 72057594037927936)"
  by (simp add: c114_def round_defs)

lemmas eval_defs = weighted_sum_def c299_eq c587_eq c114_eq plus_assign_def round_defs

text \<open>Ties go to the even neighbour, values below the normal range keep the least quantum,
  and binary32 overflows from \<open>2 ^ 128 - 2 ^ 103\<close> on.\<close>

lemma rounding_examples:
  "to_float32 16777217 = Val 16777216"
  "to_float32 16777219 = Val 16777220"
  "to_float32 (- (621 / 5)) = Val (- (8139571 / 65536))"
  "to_float32 (1 / 2 ^ 150) = Val 0"
  "to_float32 (3 / 2 ^ 150) = Val (1 / 2 ^ 148)"
  "to_float32 (2 ^ 128 - 2 ^ 103 - 1) = Val 340282346638528859811704183484516925440"
  "to_float32 (2 ^ 128 - 2 ^ 103) = PInf"
  "to_double (1 / 10) = Val (3602879701896397 / 36028797018963968)"
  by (simp_all add: round_defs)

text \<open>The luminance of some pixels, as the buffer keeps it.\<close>

lemma weighted_sum_examples:
  "store32 (weighted_sum (Val 0) (Val 0) (Val 0)) = Val 0"
  "store32 (weighted_sum (Val 10) (Val 10) (Val 10)) = Val 10"
  "store32 (weighted_sum (Val 50) (Val 50) (Val 50)) = Val 50"
  "store32 (weighted_sum (Val 55) (Val 55) (Val 55)) = Val 55"
  "store32 (weighted_sum (Val 200) (Val 100) (Val 50)) = Val (8139571 / 65536)"
  "store32 (weighted_sum (Val 2) (Val 4) (Val 119)) = Val (8657043 / 524288)"
  "store32 (weighted_sum (Val 2) (Val 70) (Val 138)) = Val (3763077 / 65536)"
  by (simp_all add: eval_defs)

section \<open>The kernel, entry by entry\<close>

lemma length_add_at [simp]: "length (add_at g j c) = length g"
  by (simp add: add_at_def)

lemma nth_add_at:
  "k < length g \<Longrightarrow> add_at g j c ! k = (if k = j then plus_assign (g ! k) c else g ! k)"
  by (simp add: add_at_def nth_list_update)

lemma length_distribute [simp]: "length (distributeErrorGrayscale g x y w h e) = length g"
  by (simp add: distributeErrorGrayscale_def Let_def)

lemma idx_eq_iff:
  "tx < w \<Longrightarrow> tx' < w \<Longrightarrow> (ty * w + tx = ty' * w + tx') = (ty = ty' \<and> tx = (tx'::nat))"
proof
  assume a: "tx < w" "tx' < w" and e: "ty * w + tx = ty' * w + tx'"
  have "(ty * w + tx) div w = ty" "(ty' * w + tx') div w = ty'"
       "(ty * w + tx) mod w = tx" "(ty' * w + tx') mod w = tx'"
    using a by simp_all
  with e show "ty = ty' \<and> tx = tx'" by metis
qed simp

lemma in_buffer: "tx < w \<Longrightarrow> ty < h \<Longrightarrow> ty * w + tx < w * (h::nat)"
proof -
  assume a: "tx < w" "ty < h"
  have "ty * w + tx < ty * w + w" using a by simp
  also have "\<dots> = (ty + 1) * w" by simp
  also have "\<dots> \<le> h * w" using a by (intro mult_le_mono1) simp
  finally show ?thesis by (simp add: mult.commute)
qed

lemma nth_add_at_xy:
  "tx < w \<Longrightarrow> cx < w \<Longrightarrow> ty * w + tx < length g \<Longrightarrow>
   add_at g (cy * w + cx) c ! (ty * w + tx) =
     (if ty = cy \<and> tx = cx then plus_assign (g ! (ty * w + tx)) c else g ! (ty * w + tx))"
  by (simp add: nth_add_at idx_eq_iff)

lemma length_add_if [simp]: "length (add_if b g w cx cy c) = length g"
  by (simp add: add_if_def)

lemma nth_add_if:
  "tx < w \<Longrightarrow> b \<longrightarrow> cx < w \<Longrightarrow> ty * w + tx < length g \<Longrightarrow>
   add_if b g w cx cy c ! (ty * w + tx) =
     (if b \<and> ty = cy \<and> tx = cx then plus_assign (g ! (ty * w + tx)) c
      else g ! (ty * w + tx))"
  by (cases b) (simp_all add: add_if_def nth_add_at_xy)

lemma distribute_writes:
  "distributeErrorGrayscale g x y w h e = apply_writes w e (kernel_writes x y w h) g"
  by (simp add: distributeErrorGrayscale_def apply_writes_def kernel_writes_def add_if_def
      Let_def matrix_def)

lemma apply_writes_Nil [simp]: "apply_writes w e [] g = g"
  by (simp add: apply_writes_def)

lemma apply_writes_Cons [simp]:
  "apply_writes w e ((b, cx, cy, wt) # ws) g =
     apply_writes w e ws (add_if b g w cx cy (js_mul e (Val wt)))"
  by (simp add: apply_writes_def)

lemma length_apply_writes [simp]: "length (apply_writes w e ws g) = length g"
  by (induction ws arbitrary: g) auto

lemma nth_apply_writes:
  assumes "tx < w" "ty * w + tx < length g"
    and "\<forall>(b, cx, cy, wt) \<in> set ws. b \<longrightarrow> cx < w"
  shows "apply_writes w e ws g ! (ty * w + tx) =
    fold (\<lambda>(b, cx, cy, wt) v.
        if b \<and> ty = cy \<and> tx = cx then plus_assign v (js_mul e (Val wt)) else v)
      ws (g ! (ty * w + tx))"
  using assms
proof (induction ws arbitrary: g)
  case Nil
  then show ?case by simp
next
  case (Cons a ws)
  obtain b cx cy wt where a: "a = (b, cx, cy, wt)" by (cases a) auto
  have b: "b \<longrightarrow> cx < w" using Cons.prems(3) a by simp
  let ?g = "add_if b g w cx cy (js_mul e (Val wt))"
  have "apply_writes w e (a # ws) g ! (ty * w + tx) = apply_writes w e ws ?g ! (ty * w + tx)"
    by (simp add: a)
  also have "\<dots> = fold (\<lambda>(b, cx, cy, wt) v.
        if b \<and> ty = cy \<and> tx = cx then plus_assign v (js_mul e (Val wt)) else v)
      ws (?g ! (ty * w + tx))"
    using Cons.prems by (intro Cons.IH) simp_all
  also have "?g ! (ty * w + tx) =
      (if b \<and> ty = cy \<and> tx = cx then plus_assign (g ! (ty * w + tx)) (js_mul e (Val wt))
       else g ! (ty * w + tx))"
    by (rule nth_add_if[OF Cons.prems(1) b Cons.prems(2)])
  finally show ?case by (simp add: a)
qed

lemma kernel_apply_ifs:
  "kernel_apply dy dx e v =
    (if dy = 2 \<and> dx = 1 then plus_assign v (js_mul e (Val (2/32)))
     else if dy = 2 \<and> dx = 0 then plus_assign v (js_mul e (Val (3/32)))
     else if dy = 2 \<and> dx = -1 then plus_assign v (js_mul e (Val (2/32)))
     else if dy = 1 \<and> dx = 2 then plus_assign v (js_mul e (Val (2/32)))
     else if dy = 1 \<and> dx = 1 then plus_assign v (js_mul e (Val (4/32)))
     else if dy = 1 \<and> dx = 0 then plus_assign v (js_mul e (Val (5/32)))
     else if dy = 1 \<and> dx = -1 then plus_assign v (js_mul e (Val (4/32)))
     else if dy = 1 \<and> dx = -2 then plus_assign v (js_mul e (Val (2/32)))
     else if dy = 0 \<and> dx = 3 then plus_assign v (js_mul e (Val (3/32)))
     else if dy = 0 \<and> dx = 2 then plus_assign v (js_mul e (Val (5/32)))
     else v)"
  by (auto simp add: kernel_apply_def kernel_weight_def sierra_kernel_def)

lemma nth_distribute:
  assumes "x < w" "tx < w" "ty < h" "length g = w * h"
  shows "distributeErrorGrayscale g x y w h e ! (ty * w + tx) =
    kernel_apply (int ty - int y) (int tx - int x) e (g ! (ty * w + tx))"
proof -
  define dy dx where "dy = int ty - int y" and "dx = int tx - int x"
  have k: "ty * w + tx < length g"
    using assms in_buffer by simp
  have c: "\<forall>(b, cx, cy, wt) \<in> set (kernel_writes x y w h). b \<longrightarrow> cx < w"
    using assms by (auto simp add: kernel_writes_def)
  have 1: "(x + 2 < w \<and> ty = y \<and> tx = x + 2) = (dy = 0 \<and> dx = 2)"
    using assms by (auto simp: dy_def dx_def)
  have 2: "(x + 3 < w \<and> ty = y \<and> tx = x + 3) = (dy = 0 \<and> dx = 3)"
    using assms by (auto simp: dy_def dx_def)
  have 3: "((y + 1 < h \<and> 2 \<le> x) \<and> ty = y + 1 \<and> tx = x - 2) = (dy = 1 \<and> dx = -2)"
    using assms by (auto simp: dy_def dx_def)
  have 4: "((y + 1 < h \<and> 1 \<le> x) \<and> ty = y + 1 \<and> tx = x - 1) = (dy = 1 \<and> dx = -1)"
    using assms by (auto simp: dy_def dx_def)
  have 5: "(y + 1 < h \<and> ty = y + 1 \<and> tx = x) = (dy = 1 \<and> dx = 0)"
    using assms by (auto simp: dy_def dx_def)
  have 6: "((y + 1 < h \<and> x + 1 < w) \<and> ty = y + 1 \<and> tx = x + 1) = (dy = 1 \<and> dx = 1)"
    using assms by (auto simp: dy_def dx_def)
  have 7: "((y + 1 < h \<and> x + 2 < w) \<and> ty = y + 1 \<and> tx = x + 2) = (dy = 1 \<and> dx = 2)"
    using assms by (auto simp: dy_def dx_def)
  have 8: "((y + 2 < h \<and> 1 \<le> x) \<and> ty = y + 2 \<and> tx = x - 1) = (dy = 2 \<and> dx = -1)"
    using assms by (auto simp: dy_def dx_def)
  have 9: "(y + 2 < h \<and> ty = y + 2 \<and> tx = x) = (dy = 2 \<and> dx = 0)"
    using assms by (auto simp: dy_def dx_def)
  have 10: "((y + 2 < h \<and> x + 1 < w) \<and> ty = y + 2 \<and> tx = x + 1) = (dy = 2 \<and> dx = 1)"
    using assms by (auto simp: dy_def dx_def)
  have "fold (\<lambda>(b, cx, cy, wt) v.
        if b \<and> ty = cy \<and> tx = cx then plus_assign v (js_mul e (Val wt)) else v)
      (kernel_writes x y w h) v = kernel_apply dy dx e v" for v
    unfolding kernel_writes_def fold_simps prod.case comp_def 1 2 3 4 5 6 7 8 9 10
      kernel_apply_ifs
    by auto
  then show ?thesis
    unfolding distribute_writes nth_apply_writes[OF assms(2) k c] dy_def dx_def .
qed

section \<open>The weight that stays in the buffer\<close>

lemma inbounds_weight_interior: "interior x y w h \<Longrightarrow> inbounds_weight x y w h = 1"
  by (simp add: interior_def inbounds_weight_def kernel_writes_def)

lemma inbounds_weight_edge:
  "\<not> interior x y w h \<Longrightarrow> inbounds_weight x y w h < 1"
  unfolding interior_def inbounds_weight_def kernel_writes_def
  by (cases "x + 2 < w"; cases "x + 3 < w"; cases "y + 1 < h"; cases "y + 2 < h"; cases "2 \<le> x";
      cases "1 \<le> x"; cases "x + 1 < w"; simp)

lemma kernel_sum: "sum_list (map snd sierra_kernel) = 1"
  by (simp add: sierra_kernel_def)

lemma inbounds_weight_nonneg: "0 \<le> inbounds_weight x y w h"
  unfolding inbounds_weight_def
  by (rule sum_list_nonneg) (auto simp: kernel_writes_def)

section \<open>The scan\<close>

lemma fold_update_upt:
  "n \<le> length xs \<Longrightarrow>
   fold (\<lambda>i g. g[i := f i]) [0..<n] xs = map f [0..<n] @ drop n xs"
proof (induction n)
  case 0
  then show ?case by simp
next
  case (Suc n)
  then have n: "n < length xs" by simp
  have "(map f [0..<n] @ drop n xs)[n := f n] = map f [0..<n] @ (drop n xs)[0 := f n]"
    by (simp add: list_update_append)
  also have "(drop n xs)[0 := f n] = f n # drop (Suc n) xs"
    using n by (simp add: Cons_nth_drop_Suc[symmetric])
  finally show ?case using Suc by simp
qed

lemma to_grayscale_map: "to_grayscale w h d = map (luminance d) [0..<w * h]"
  by (simp add: to_grayscale_def fold_update_upt luminance_def)

lemma length_to_grayscale [simp]: "length (to_grayscale w h d) = w * h"
  by (simp add: to_grayscale_map)

lemma nth_to_grayscale: "i < w * h \<Longrightarrow> to_grayscale w h d ! i = luminance d i"
  by (simp add: to_grayscale_map)

lemma fold_row:
  "fold (\<lambda>x. f y x) [0..<w] s = fold (\<lambda>i. f (i div w) (i mod w)) [y * w..<y * w + w] s"
proof -
  have "[y * w..<y * w + w] = map (\<lambda>x. y * w + x) [0..<w]"
    by (simp add: map_add_upt add.commute)
  then have "fold (\<lambda>i. f (i div w) (i mod w)) [y * w..<y * w + w] s =
      fold ((\<lambda>i. f (i div w) (i mod w)) \<circ> (\<lambda>x. y * w + x)) [0..<w] s"
    by (simp add: fold_map)
  also have "\<dots> = fold (\<lambda>x. f y x) [0..<w] s"
    by (rule fold_cong) auto
  finally show ?thesis by simp
qed

lemma fold_rows:
  "fold (\<lambda>y. fold (\<lambda>x. f y x) [0..<w]) [0..<h] s =
   fold (\<lambda>i. f (i div w) (i mod w)) [0..<h * w] s"
proof (induction h)
  case 0
  then show ?case by simp
next
  case (Suc h)
  let ?g = "\<lambda>i. f (i div w) (i mod w)"
  have "fold (\<lambda>y. fold (\<lambda>x. f y x) [0..<w]) [0..<Suc h] s =
      fold (\<lambda>x. f h x) [0..<w] (fold ?g [0..<h * w] s)"
    using Suc by simp
  also have "\<dots> = fold ?g [h * w..<h * w + w] (fold ?g [0..<h * w] s)"
    by (rule fold_row)
  also have "\<dots> = fold ?g ([0..<h * w] @ [h * w..<h * w + w]) s"
    by simp
  also have "[0..<h * w] @ [h * w..<h * w + w] = [0..<h * w + w]"
    by (rule upt_add_eq_append[symmetric]) simp
  also have "h * w + w = Suc h * w"
    by simp
  finally show ?case .
qed

lemma process_scan:
  "process img = img\<lparr>data := snd (scan_state img (width img * height img))\<rparr>"
  by (simp add: process_def scan_state_def Let_def fold_rows mult.commute)

lemma scan_state_0: "scan_state img 0 = (to_grayscale (width img) (height img) (data img), data img)"
  by (simp add: scan_state_def)

lemma scan_state_Suc:
  "scan_state img (Suc n) =
     dither_pixel (width img) (height img) (n div width img) (n mod width img) (scan_state img n)"
  by (simp add: scan_state_def Let_def)

lemma fst_scan_state_Suc:
  "fst (scan_state img (Suc n)) =
     distributeErrorGrayscale (fst (scan_state img n)) (n mod width img) (n div width img)
       (width img) (height img) (error_at img n)"
  by (simp add: scan_state_Suc dither_pixel_def Let_def error_at_def newPixel_at_def
      oldPixel_at_def split: prod.splits)

lemma snd_scan_state_Suc:
  "snd (scan_state img (Suc n)) =
     (snd (scan_state img n))
       [n * 4 := 0, n * 4 + 1 := 0, n * 4 + 2 := 0,
        n * 4 + 3 := (if newPixel_at img n = 0 then 255 else 0)]"
  by (simp add: scan_state_Suc dither_pixel_def Let_def error_at_def newPixel_at_def
      oldPixel_at_def split: prod.splits)

lemma length_fst_scan_state [simp]:
  "length (fst (scan_state img n)) = width img * height img"
  by (induction n) (simp_all add: scan_state_0 fst_scan_state_Suc)

lemma length_snd_scan_state [simp]:
  "length (snd (scan_state img n)) = length (data img)"
  by (induction n) (simp_all add: scan_state_0 snd_scan_state_Suc)

lemma nth_update4:
  "j < length d \<Longrightarrow>
   d[a := v0, b := v1, c := v2, e := v3] ! j =
     (if j = e then v3 else if j = c then v2 else if j = b then v1
      else if j = a then v0 else d ! j)"
  by (simp add: nth_list_update)

lemma nth_snd_scan_state:
  "j < length (data img) \<Longrightarrow>
   snd (scan_state img n) ! j =
     (if j div 4 < n
      then (if j mod 4 = 3 \<and> newPixel_at img (j div 4) = 0 then 255 else 0)
      else data img ! j)"
proof (induction n)
  case 0
  then show ?case by (simp add: scan_state_0)
next
  case (Suc n)
  let ?d = "snd (scan_state img n)"
  let ?a = "if newPixel_at img n = 0 then 255 else 0 :: 8 word"
  define q r where "q = j div 4" and "r = j mod 4"
  have j: "j = q * 4 + r" "r < 4"
    by (simp_all add: q_def r_def)
  have e3: "(j = n * 4 + 3) = (q = n \<and> r = 3)"
    using j by presburger
  have e2: "(j = n * 4 + 2) = (q = n \<and> r = 2)"
    using j by presburger
  have e1: "(j = n * 4 + 1) = (q = n \<and> r = 1)"
    using j by presburger
  have e0: "(j = n * 4) = (q = n \<and> r = 0)"
    using j by presburger
  have len: "j < length ?d" using Suc.prems by simp
  have upd: "snd (scan_state img (Suc n)) ! j =
      (if q = n \<and> r = 3 then ?a
       else if q = n \<and> r = 2 then 0
       else if q = n \<and> r = 1 then 0
       else if q = n \<and> r = 0 then 0 else ?d ! j)"
    unfolding snd_scan_state_Suc nth_update4[OF len] e0 e1 e2 e3 ..
  have ih: "?d ! j = (if q < n then (if r = 3 \<and> newPixel_at img q = 0 then 255 else 0)
      else data img ! j)"
    using Suc.IH[OF Suc.prems] by (simp add: q_def r_def)
  have r: "r = 0 \<or> r = 1 \<or> r = 2 \<or> r = 3" using j(2) by auto
  have "snd (scan_state img (Suc n)) ! j =
      (if q < Suc n then (if r = 3 \<and> newPixel_at img q = 0 then 255 else 0)
       else data img ! j)"
    unfolding upd ih using r by (cases "q = n"; cases "q < n") auto
  then show ?case by (simp add: q_def r_def)
qed


lemma rgba_process:
  assumes "i * 4 + 3 < length (data img)" and "i < width img * height img"
  shows "rgba (data (process img)) i =
    [0, 0, 0, if newPixel_at img i = 0 then 255 else 0]"
proof -
  let ?n = "width img * height img"
  have d: "(i * 4) div 4 = i" "(i * 4 + 1) div 4 = i" "(i * 4 + 2) div 4 = i" "(i * 4 + 3) div 4 = i"
    by presburger+
  have m: "(i * 4) mod 4 = 0" "(i * 4 + 1) mod 4 = 1" "(i * 4 + 2) mod 4 = 2" "(i * 4 + 3) mod 4 = 3"
    by presburger+
  have l: "i * 4 < length (data img)" "i * 4 + 1 < length (data img)"
    "i * 4 + 2 < length (data img)" "i * 4 + 3 < length (data img)"
    using assms(1) by simp_all
  have "snd (scan_state img ?n) ! (i * 4) = 0"
    unfolding nth_snd_scan_state[OF l(1)] d m using assms(2) by simp
  moreover have "snd (scan_state img ?n) ! (i * 4 + 1) = 0"
    unfolding nth_snd_scan_state[OF l(2)] d m using assms(2) by simp
  moreover have "snd (scan_state img ?n) ! (i * 4 + 2) = 0"
    unfolding nth_snd_scan_state[OF l(3)] d m using assms(2) by simp
  moreover have "snd (scan_state img ?n) ! (i * 4 + 3) = (if newPixel_at img i = 0 then 255 else 0)"
    unfolding nth_snd_scan_state[OF l(4)] d m using assms(2) by simp
  ultimately show ?thesis
    unfolding rgba_def process_scan by simp
qed

lemma kernel_apply_backward:
  "dy < 0 \<or> (dy = 0 \<and> dx \<le> 0) \<Longrightarrow> kernel_apply dy dx e v = v"
  unfolding kernel_apply_ifs by auto

lemma distribute_forward:
  assumes "x < w" "y < h" "length g = w * h" "j \<le> y * w + x"
  shows "distributeErrorGrayscale g x y w h e ! j = g ! j"
proof -
  have w: "0 < w" using assms(1) by simp
  define ty tx where "ty = j div w" and "tx = j mod w"
  have j: "j = ty * w + tx" by (simp add: ty_def tx_def)
  have tx: "tx < w" using w by (simp add: tx_def)
  have "j div w \<le> (y * w + x) div w" using assms(4) by (rule div_le_mono)
  then have ty: "ty \<le> y" using assms(1) by (simp add: ty_def)
  then have tyh: "ty < h" using assms(2) by simp
  have "tx \<le> x" if "ty = y" using assms(4) that unfolding j by simp
  then have "int ty - int y < 0 \<or> (int ty - int y = 0 \<and> int tx - int x \<le> 0)"
    using ty by (cases "ty = y") auto
  then have "kernel_apply (int ty - int y) (int tx - int x) e (g ! (ty * w + tx)) =
      g ! (ty * w + tx)"
    by (rule kernel_apply_backward)
  then show ?thesis
    unfolding j using nth_distribute[OF assms(1) tx tyh assms(3), of y e] by simp
qed

lemma scan_state_accumulates:
  assumes "n \<le> width img * height img" "j < width img * height img"
  shows "fst (scan_state img n) ! j = fold (diffuse_from img j) [0..<n] (luminance (data img) j)"
  using assms(1)
proof (induction n)
  case 0
  then show ?case using assms(2) by (simp add: scan_state_0 nth_to_grayscale)
next
  case (Suc n)
  let ?w = "width img" and ?h = "height img"
  have n: "n < ?w * ?h" using Suc.prems by simp
  then have w: "0 < ?w" by (cases "?w") auto
  have x: "n mod ?w < ?w" and tx: "j mod ?w < ?w" using w by simp_all
  have ty: "j div ?w < ?h" using assms(2) by (simp add: less_mult_imp_div_less mult.commute)
  have j: "j div ?w * ?w + j mod ?w = j" by simp
  have "fst (scan_state img (Suc n)) ! (j div ?w * ?w + j mod ?w) =
      diffuse_from img j n (fst (scan_state img n) ! (j div ?w * ?w + j mod ?w))"
    unfolding fst_scan_state_Suc diffuse_from_def
    by (rule nth_distribute[OF x tx ty]) simp
  then have "fst (scan_state img (Suc n)) ! j = diffuse_from img j n (fst (scan_state img n) ! j)"
    unfolding j .
  then show ?case using Suc n by simp
qed

lemma scan_state_settled:
  assumes "i \<le> n" "n \<le> width img * height img"
  shows "fst (scan_state img n) ! i = fst (scan_state img i) ! i"
  using assms
proof (induction n)
  case 0
  then show ?case by simp
next
  case (Suc n)
  show ?case
  proof (cases "i = Suc n")
    case True
    then show ?thesis by simp
  next
    case False
    then have le: "i \<le> n" using Suc.prems by simp
    let ?w = "width img" and ?h = "height img"
    have n: "n < ?w * ?h" using Suc.prems by simp
    then have w: "0 < ?w" by (cases "?w") auto
    have x: "n mod ?w < ?w" using w by simp
    have y: "n div ?w < ?h" using n by (simp add: less_mult_imp_div_less mult.commute)
    have "fst (scan_state img (Suc n)) ! i = fst (scan_state img n) ! i"
      unfolding fst_scan_state_Suc
      by (rule distribute_forward[OF x y]) (use le in simp_all)
    then show ?thesis using Suc.IH[OF le] n by simp
  qed
qed

lemma luminance_Val:
  assumes "i * 4 + 2 < length d"
  shows "luminance d i =
    store32 (weighted_sum (Val (of_nat (unat (d ! (i * 4)))))
       (Val (of_nat (unat (d ! (i * 4 + 1))))) (Val (of_nat (unat (d ! (i * 4 + 2))))))"
  using assms by (simp add: luminance_def gray_def channel_def Let_def)

lemma channel_same_rgb:
  "same_rgb d d' \<Longrightarrow> j mod 4 \<noteq> 3 \<Longrightarrow> channel d' j = channel d j"
  by (auto simp add: same_rgb_def channel_def list_all_iff)

lemma gray_same_rgb:
  assumes "same_rgb d d'"
  shows "gray d' i = gray d i"
proof -
  have "(i * 4) mod 4 \<noteq> 3" "(i * 4 + 1) mod 4 \<noteq> 3" "(i * 4 + 2) mod 4 \<noteq> 3"
    by presburger+
  then have "channel d' (i * 4) = channel d (i * 4)"
    "channel d' (i * 4 + 1) = channel d (i * 4 + 1)"
    "channel d' (i * 4 + 2) = channel d (i * 4 + 2)"
    by (simp_all add: channel_same_rgb[OF assms])
  then show ?thesis
    by (simp only: gray_def Let_def)
qed

lemma luminance_same_rgb: "same_rgb d d' \<Longrightarrow> luminance d' i = luminance d i"
  by (simp add: luminance_def gray_same_rgb)

lemma fst_scan_state_same_rgb:
  assumes "same_rgb (data img) d'"
  shows "fst (scan_state (img\<lparr>data := d'\<rparr>) n) = fst (scan_state img n)"
proof (induction n)
  case 0
  have "map (luminance d') [0..<width img * height img] =
      map (luminance (data img)) [0..<width img * height img]"
    by (simp add: luminance_same_rgb[OF assms])
  then show ?case by (simp add: scan_state_0 to_grayscale_map)
next
  case (Suc n)
  then have "error_at (img\<lparr>data := d'\<rparr>) n = error_at img n"
    by (simp add: error_at_def newPixel_at_def oldPixel_at_def)
  then show ?case using Suc by (simp add: fst_scan_state_Suc)
qed

lemma newPixel_at_same_rgb:
  "same_rgb (data img) d' \<Longrightarrow> newPixel_at (img\<lparr>data := d'\<rparr>) i = newPixel_at img i"
  by (simp add: newPixel_at_def oldPixel_at_def fst_scan_state_same_rgb)

lemma process_same_rgb:
  assumes "same_rgb (data img) d'" "length (data img) = 4 * width img * height img"
  shows "process (img\<lparr>data := d'\<rparr>) = process img"
proof -
  let ?n = "width img * height img"
  have len: "length d' = length (data img)" using assms(1) by (simp add: same_rgb_def)
  have "snd (scan_state (img\<lparr>data := d'\<rparr>) ?n) ! j = snd (scan_state img ?n) ! j"
    if "j < length (data img)" for j
  proof -
    have "j div 4 < ?n" using that assms(2) by (simp add: less_mult_imp_div_less mult.commute mult.assoc)
    moreover have "j < length (data (img\<lparr>data := d'\<rparr>))" using that len by simp
    ultimately show ?thesis
      using nth_snd_scan_state[of j "img\<lparr>data := d'\<rparr>" ?n] nth_snd_scan_state[OF that, of ?n]
      by (simp add: newPixel_at_same_rgb[OF assms(1)])
  qed
  then have "snd (scan_state (img\<lparr>data := d'\<rparr>) ?n) = snd (scan_state img ?n)"
    by (intro nth_equalityI) (simp_all add: len)
  then show ?thesis by (simp add: process_scan)
qed

lemma plus_assign_zero: "plus_assign (Val 0) (Val 0) = Val 0"
  by (simp add: plus_assign_def)

lemma add_if_zero:
  "add_if b (replicate n (Val 0)) w cx cy (Val 0) = replicate n (Val 0)"
proof (cases "b \<and> cy * w + cx < n")
  case True
  then show ?thesis
    by (simp add: add_if_def add_at_def plus_assign_zero list_update_same_conv)
next
  case False
  then show ?thesis by (auto simp add: add_if_def add_at_def list_update_beyond)
qed

lemma apply_writes_zero:
  "apply_writes w (Val 0) ws (replicate n (Val 0)) = replicate n (Val 0)"
  by (induction ws) (auto simp: add_if_zero)

lemma distribute_zero:
  "distributeErrorGrayscale (replicate n (Val 0)) x y w h (Val 0) = replicate n (Val 0)"
  by (simp add: distribute_writes apply_writes_zero)

lemma luminance_black:
  assumes "i * 4 + 2 < length d" "d ! (i * 4) = 0" "d ! (i * 4 + 1) = 0" "d ! (i * 4 + 2) = 0"
  shows "luminance d i = Val 0"
  using assms by (simp add: luminance_Val weighted_sum_examples)

lemma scan_state_black:
  assumes "\<forall>i < width img * height img. luminance (data img) i = Val 0"
    and "n \<le> width img * height img"
  shows "fst (scan_state img n) = replicate (width img * height img) (Val 0)"
  using assms(2)
proof (induction n)
  case 0
  have "map (luminance (data img)) [0..<width img * height img] =
      map (\<lambda>i. Val 0) [0..<width img * height img]"
    using assms(1) by simp
  then show ?case by (simp add: scan_state_0 to_grayscale_map map_replicate_const)
next
  case (Suc n)
  then have s: "fst (scan_state img n) = replicate (width img * height img) (Val 0)"
    and n: "n < width img * height img" by simp_all
  have "error_at img n = Val 0"
    using n by (simp add: error_at_def newPixel_at_def oldPixel_at_def gray_at_def s)
  then show ?case by (simp add: fst_scan_state_Suc distribute_zero s)
qed

lemma newPixel_at_black:
  assumes "\<forall>i < width img * height img. luminance (data img) i = Val 0"
    and "i < width img * height img"
  shows "newPixel_at img i = 0"
  using assms(2) scan_state_black[OF assms(1), of i]
  by (simp add: newPixel_at_def oldPixel_at_def gray_at_def)

lemma rgba_nth:
  "rgba d i = [a, b, c, e] \<Longrightarrow> d ! (i * 4) = a \<and> d ! (i * 4 + 1) = b \<and> d ! (i * 4 + 2) = c"
  by (simp add: rgba_def)

lemma process_twice_black:
  assumes "length (data img) = 4 * width img * height img" "i < width img * height img"
  shows "rgba (data (process (process img))) i = [0, 0, 0, 255]"
proof -
  let ?p = "process img"
  have w: "width ?p = width img" "height ?p = height img" "length (data ?p) = length (data img)"
    by (simp_all add: process_scan)
  have g: "luminance (data ?p) k = Val 0" if "k < width img * height img" for k
  proof -
    have l: "k * 4 + 3 < length (data img)" using that assms(1) by simp
    then have l2: "k * 4 + 2 < length (data ?p)" using w by simp
    from rgba_nth[OF rgba_process[OF l that]] show ?thesis
      by (intro luminance_black[OF l2]) simp_all
  qed
  have "newPixel_at ?p i = 0"
    by (rule newPixel_at_black) (use g assms(2) w in simp_all)
  moreover have "i * 4 + 3 < length (data ?p)" using assms w by simp
  moreover have "i < width ?p * height ?p" using assms w by simp
  ultimately show ?thesis using rgba_process[of i ?p] by simp
qed

section \<open>The examples, evaluated\<close>

lemma ex_column_luminance:
  "luminance (data ex_column) 0 = Val (8657043 / 524288)"
  "luminance (data ex_column) (Suc 0) = Val (3763077 / 65536)"
  by (simp_all add: ex_column_def luminance_def gray_def channel_def weighted_sum_examples)

lemma ex_column_dims:
  "width ex_column = 1" "height ex_column = 2" "length (data ex_column) = 8"
  by (simp_all add: ex_column_def)

lemma ex_column_0:
  "scan_state ex_column 0 =
    ([Val (8657043 / 524288), Val (3763077 / 65536)], [2, 4, 119, 255, 2, 70, 138, 255])"
  by (simp add: scan_state_0 to_grayscale_map ex_column_dims upt_rec ex_column_luminance)
    (simp add: ex_column_def)

lemma ex_column_1:
  "scan_state ex_column (Suc 0) =
    ([Val (8657043 / 524288), Val (15728639 / 262144)], [0, 0, 0, 255, 2, 70, 138, 255])"
  unfolding scan_state_Suc ex_column_0 ex_column_dims
  by (simp add: dither_pixel_def gray_at_def distributeErrorGrayscale_def add_at_def matrix_def
      eval_defs)

lemma ex_column_2:
  "scan_state ex_column (Suc (Suc 0)) =
    ([Val (8657043 / 524288), Val (15728639 / 262144)], [0, 0, 0, 255, 0, 0, 0, 255])"
  unfolding scan_state_Suc[of _ "Suc 0"] ex_column_1 ex_column_dims
  by (simp add: dither_pixel_def gray_at_def distributeErrorGrayscale_def add_at_def matrix_def
      eval_defs)

lemma ex_column_process:
  "data (process ex_column) = [0, 0, 0, 255, 0, 0, 0, 255]"
proof -
  have "Suc (Suc 0) = width ex_column * height ex_column" by (simp add: ex_column_dims)
  then show ?thesis using ex_column_2 by (simp add: process_scan del: One_nat_def)
qed

lemma ex_img_dims:
  "width ex_img = 2" "height ex_img = 1" "length (data ex_img) = 8"
  by (simp_all add: ex_img_def)

lemma ex_img_luminance:
  "luminance (data ex_img) 0 = Val 10"
  "luminance (data ex_img) (Suc 0) = Val (8139571 / 65536)"
  by (simp_all add: ex_img_def luminance_def gray_def channel_def weighted_sum_examples)

lemma ex_img_0:
  "scan_state ex_img 0 = ([Val 10, Val (8139571 / 65536)], [10, 10, 10, 77, 200, 100, 50, 9])"
  by (simp add: scan_state_0 to_grayscale_map ex_img_dims upt_rec ex_img_luminance)
    (simp add: ex_img_def)

lemmas step_defs = dither_pixel_def gray_at_def distributeErrorGrayscale_def add_at_def
  matrix_def eval_defs

lemma ex_img_1:
  "scan_state ex_img (Suc 0) =
    ([Val 10, Val (8139571 / 65536)], [0, 0, 0, 255, 200, 100, 50, 9])"
  unfolding scan_state_Suc ex_img_0 ex_img_dims by (simp add: step_defs)

lemma ex_img_2:
  "scan_state ex_img (Suc (Suc 0)) =
    ([Val 10, Val (8139571 / 65536)], [0, 0, 0, 255, 0, 0, 0, 0])"
  unfolding scan_state_Suc[of _ "Suc 0"] ex_img_1 ex_img_dims by (simp add: step_defs)

lemma ex_img_process: "data (process ex_img) = [0, 0, 0, 255, 0, 0, 0, 0]"
proof -
  have "Suc (Suc 0) = width ex_img * height ex_img" by (simp add: ex_img_dims)
  then show ?thesis using ex_img_2 by (simp add: process_scan del: One_nat_def)
qed

lemma ex_scan_dims:
  "width ex_scan = 3" "height ex_scan = 1" "length (data ex_scan) = 12"
  by (simp_all add: ex_scan_def)

lemma ex_scan_luminance:
  "luminance (data ex_scan) 0 = Val 50"
  "luminance (data ex_scan) (Suc 0) = Val 50"
  "luminance (data ex_scan) (Suc (Suc 0)) = Val 55"
  by (simp_all add: ex_scan_def luminance_def gray_def channel_def weighted_sum_examples)

lemma ex_scan_0:
  "scan_state ex_scan 0 =
    ([Val 50, Val 50, Val 55], [50, 50, 50, 255, 50, 50, 50, 255, 55, 55, 55, 255])"
  by (simp add: scan_state_0 to_grayscale_map ex_scan_dims upt_rec ex_scan_luminance)
    (simp add: ex_scan_def)

lemma ex_scan_1:
  "scan_state ex_scan (Suc 0) =
    ([Val 50, Val 50, Val (1005 / 16)], [0, 0, 0, 255, 50, 50, 50, 255, 55, 55, 55, 255])"
  unfolding scan_state_Suc ex_scan_0 ex_scan_dims by (simp add: step_defs)

lemma ex_scan_2:
  "scan_state ex_scan (Suc (Suc 0)) =
    ([Val 50, Val 50, Val (1005 / 16)], [0, 0, 0, 255, 0, 0, 0, 255, 55, 55, 55, 255])"
  unfolding scan_state_Suc[of _ "Suc 0"] ex_scan_1 ex_scan_dims by (simp add: step_defs)

lemma ex_scan_3:
  "scan_state ex_scan (Suc (Suc (Suc 0))) =
    ([Val 50, Val 50, Val (1005 / 16)], [0, 0, 0, 255, 0, 0, 0, 255, 0, 0, 0, 0])"
  unfolding scan_state_Suc[of _ "Suc (Suc 0)"] ex_scan_2 ex_scan_dims by (simp add: step_defs)

lemma ex_scan_process:
  "data (process ex_scan) = [0, 0, 0, 255, 0, 0, 0, 255, 0, 0, 0, 0]"
proof -
  have "Suc (Suc (Suc 0)) = width ex_scan * height ex_scan" by (simp add: ex_scan_dims)
  then show ?thesis using ex_scan_3 by (simp add: process_scan del: One_nat_def)
qed

lemma ex_row_dims:
  "width ex_row = 4" "height ex_row = 1" "length (data ex_row) = 16"
  by (simp_all add: ex_row_def)

lemma ex_row_luminance:
  "luminance (data ex_row) 0 = Val 10"
  "luminance (data ex_row) (Suc 0) = Val 10"
  "luminance (data ex_row) (Suc (Suc 0)) = Val 10"
  "luminance (data ex_row) (Suc (Suc (Suc 0))) = Val 10"
  by (simp_all add: ex_row_def luminance_def gray_def channel_def weighted_sum_examples)

lemma ex_buffer_distribute:
  "distributeErrorGrayscale ex_buffer 2 0 6 3 ex_error =
    [Val 10, Val 10, Val 10, Val 10, Val (- (167 / 16)), Val (- (4744807 / 2097152)),
     Val (1913651 / 1048576), Val (- (3329229 / 524288)), Val (- (167 / 16)),
     Val (- (3329229 / 524288)), Val (1913651 / 1048576), Val 10,
     Val 10, Val (1913651 / 1048576), Val (- (4744807 / 2097152)), Val (1913651 / 1048576),
     Val 10, Val 10]"
  by (simp add: ex_buffer_def ex_error_def distributeErrorGrayscale_def add_at_def matrix_def
      eval_defs numeral_eq_Suc)

lemma ex_buffer_total: "buffer_total ex_buffer = 180"
  by (simp add: ex_buffer_def buffer_total_def sum_list_replicate)

lemma ex_buffer_diffused:
  "diffused ex_buffer 2 0 6 3 ex_error = - (137153743 / 1048576)"
  unfolding diffused_def ex_buffer_distribute ex_buffer_total
  by (simp add: buffer_total_def)

lemma row_of_four_steps:
  assumes "width img = 4" "height img = 1"
    and "\<forall>i < 4. luminance (data img) i = Val 10"
  shows "fst (scan_state img 0) = [Val 10, Val 10, Val 10, Val 10]"
    and "fst (scan_state img (Suc 0)) = [Val 10, Val 10, Val (185 / 16), Val (175 / 16)]"
    and "fst (scan_state img (Suc (Suc 0))) = [Val 10, Val 10, Val (185 / 16), Val (25 / 2)]"
    and "fst (scan_state img (Suc (Suc (Suc 0)))) = [Val 10, Val 10, Val (185 / 16), Val (25 / 2)]"
    and "fst (scan_state img (Suc (Suc (Suc (Suc 0))))) =
          [Val 10, Val 10, Val (185 / 16), Val (25 / 2)]"
    and "newPixel_at img 0 = 0" "newPixel_at img (Suc 0) = 0"
      "newPixel_at img (Suc (Suc 0)) = 0" "newPixel_at img (Suc (Suc (Suc 0))) = 0"
proof -
  have g: "luminance (data img) 0 = Val 10" "luminance (data img) (Suc 0) = Val 10"
    "luminance (data img) (Suc (Suc 0)) = Val 10" "luminance (data img) (Suc (Suc (Suc 0))) = Val 10"
    using assms(3) by simp_all
  have u: "[0..<4] = [0, Suc 0, Suc (Suc 0), Suc (Suc (Suc 0))]"
    by (simp add: upt_rec)
  show s0: "fst (scan_state img 0) = [Val 10, Val 10, Val 10, Val 10]"
    by (simp add: scan_state_0 to_grayscale_map assms(1,2) u g)
  show n0: "newPixel_at img 0 = 0"
    by (simp add: newPixel_at_def oldPixel_at_def gray_at_def s0)
  have e0: "error_at img 0 = Val 10"
    by (simp add: error_at_def n0) (simp add: oldPixel_at_def gray_at_def s0 round_defs)
  show s1: "fst (scan_state img (Suc 0)) = [Val 10, Val 10, Val (185 / 16), Val (175 / 16)]"
    unfolding fst_scan_state_Suc s0 e0 assms(1,2)
    by (simp add: distributeErrorGrayscale_def add_at_def matrix_def eval_defs)
  show n1: "newPixel_at img (Suc 0) = 0"
    by (simp add: newPixel_at_def oldPixel_at_def gray_at_def s1)
  have e1: "error_at img (Suc 0) = Val 10"
    by (simp add: error_at_def n1) (simp add: oldPixel_at_def gray_at_def s1 round_defs)
  show s2: "fst (scan_state img (Suc (Suc 0))) = [Val 10, Val 10, Val (185 / 16), Val (25 / 2)]"
    unfolding fst_scan_state_Suc[of img "Suc 0"] s1 e1 assms(1,2)
    by (simp add: distributeErrorGrayscale_def add_at_def matrix_def eval_defs)
  show n2: "newPixel_at img (Suc (Suc 0)) = 0"
    by (simp add: newPixel_at_def oldPixel_at_def gray_at_def s2)
  have e2: "error_at img (Suc (Suc 0)) = Val (185 / 16)"
    by (simp add: error_at_def n2) (simp add: oldPixel_at_def gray_at_def s2 round_defs)
  show s3: "fst (scan_state img (Suc (Suc (Suc 0)))) = [Val 10, Val 10, Val (185 / 16), Val (25 / 2)]"
    unfolding fst_scan_state_Suc[of img "Suc (Suc 0)"] s2 e2 assms(1,2)
    by (simp add: distributeErrorGrayscale_def add_at_def matrix_def eval_defs)
  show n3: "newPixel_at img (Suc (Suc (Suc 0))) = 0"
    by (simp add: newPixel_at_def oldPixel_at_def gray_at_def s3)
  have e3: "error_at img (Suc (Suc (Suc 0))) = Val (25 / 2)"
    by (simp add: error_at_def n3) (simp add: oldPixel_at_def gray_at_def s3 round_defs)
  show "fst (scan_state img (Suc (Suc (Suc (Suc 0))))) = [Val 10, Val 10, Val (185 / 16), Val (25 / 2)]"
    unfolding fst_scan_state_Suc[of img "Suc (Suc (Suc 0))"] s3 e3 assms(1,2)
    by (simp add: distributeErrorGrayscale_def add_at_def matrix_def eval_defs)
qed

lemma ex_row_luminance_all: "\<forall>i < 4. luminance (data ex_row) i = Val 10"
proof (intro allI impI)
  fix i :: nat assume "i < 4"
  then have "i = 0 \<or> i = Suc 0 \<or> i = Suc (Suc 0) \<or> i = Suc (Suc (Suc 0))" by auto
  then show "luminance (data ex_row) i = Val 10" using ex_row_luminance by auto
qed

lemma zero_buffer_total: "buffer_total (replicate n (Val 0)) = 0"
  by (induction n) (simp_all add: buffer_total_def)

lemma matrix_weights_sum:
  "matrix ! 0 ! 2 + matrix ! 0 ! 3
     + matrix ! 1 ! 0 + matrix ! 1 ! 1 + matrix ! 1 ! 2 + matrix ! 1 ! 3 + matrix ! 1 ! 4
     + matrix ! 2 ! 1 + matrix ! 2 ! 2 + matrix ! 2 ! 3 = 1"
  by (simp add: matrix_def)

lemma interior_guards:
  "interior x y w h \<Longrightarrow> map fst (kernel_writes x y w h) = replicate 10 True"
  by (simp add: interior_def kernel_writes_def numeral_eq_Suc)

lemma kernel_writes_products:
  "sum_list (map (\<lambda>(b, cx, cy, wt). r * wt) (kernel_writes x y w h)) = r"
  by (simp add: kernel_writes_def algebra_simps)

lemma small_error_is_absorbed:
  "distributeErrorGrayscale (replicate 18 (Val 100)) 2 0 6 3 (Val (1 / 1048576)) =
     replicate 18 (Val 100)"
  by (simp add: distributeErrorGrayscale_def add_at_def matrix_def eval_defs numeral_eq_Suc)

lemma interior_targets:
  assumes "interior x y w h" and "length g = w * h"
  shows "\<forall>((dy, dx), wt) \<in> set sierra_kernel.
           0 \<le> int x + dx \<and> int x + dx < int w \<and> int y + dy < int h
           \<and> distributeErrorGrayscale g x y w h e ! (nat (int y + dy) * w + nat (int x + dx)) =
               plus_assign (g ! (nat (int y + dy) * w + nat (int x + dx))) (js_mul e (Val wt))"
proof (intro ballI, clarify)
  fix dy dx wt
  assume m: "((dy, dx), wt) \<in> set sierra_kernel"
  have i: "2 \<le> x" "x + 3 < w" "y + 2 < h" using assms(1) by (simp_all add: interior_def)
  have r: "0 \<le> dy \<and> dy \<le> 2 \<and> - 2 \<le> dx \<and> dx \<le> 3"
    using m by (auto simp: sierra_kernel_def)
  have d: "distinct (map fst sierra_kernel)" by (simp add: sierra_kernel_def)
  have kw: "kernel_weight dy dx = Some wt"
    unfolding kernel_weight_def using d m by (rule map_of_is_SomeI)
  define tx ty where "tx = nat (int x + dx)" and "ty = nat (int y + dy)"
  have b: "0 \<le> int x + dx" "int x + dx < int w" "int y + dy < int h"
    using i r by auto
  have tx: "tx < w" and ty: "ty < h" using b r by (auto simp: tx_def ty_def)
  have o: "int ty - int y = dy" "int tx - int x = dx"
    using b r by (auto simp: tx_def ty_def)
  have xw: "x < w" using i by simp
  have "distributeErrorGrayscale g x y w h e ! (ty * w + tx) =
      plus_assign (g ! (ty * w + tx)) (js_mul e (Val wt))"
    using nth_distribute[OF xw tx ty assms(2), of y e] by (simp add: o kernel_apply_def kw)
  then show "0 \<le> int x + dx \<and> int x + dx < int w \<and> int y + dy < int h
      \<and> distributeErrorGrayscale g x y w h e ! (nat (int y + dy) * w + nat (int x + dx)) =
          plus_assign (g ! (nat (int y + dy) * w + nat (int x + dx))) (js_mul e (Val wt))"
    using b by (simp add: tx_def ty_def)
qed

section \<open>The claims\<close>



text \<open>
  C2. Diffusion from the pixel \<open>(x, y)\<close> adds \<open>error\<close> times a weight to the entry at
  \<open>(tx, ty)\<close> of the buffer, by the statement \<open>grayscale[j] += error * weight\<close>, when the
  offset \<open>(ty - y, tx - x)\<close> is one of the ten of the table of the specification, with the
  weight of the table, and leaves the entry as it was at every other offset: (0, +2) 5/32,
  (0, +3) 3/32, (+1, -2) 2/32, (+1, -1) 4/32, (+1, 0) 5/32, (+1, +1) 4/32, (+1, +2) 2/32,
  (+2, -1) 2/32, (+2, 0) 3/32, (+2, +1) 2/32.
\<close>

theorem distribute_follows_kernel_table:
  assumes "x < w" "y < h" and "tx < w" "ty < h" and "length g = w * h"
  shows "distributeErrorGrayscale g x y w h e ! (ty * w + tx) =
      (case kernel_weight (int ty - int y) (int tx - int x) of
         None \<Rightarrow> g ! (ty * w + tx)
       | Some wt \<Rightarrow> plus_assign (g ! (ty * w + tx)) (js_mul e (Val wt)))
    \<and> length (distributeErrorGrayscale g x y w h e) = length g
    \<and> sierra_kernel =
        [((0, 2), 5/32), ((0, 3), 3/32),
         ((1, -2), 2/32), ((1, -1), 4/32), ((1, 0), 5/32), ((1, 1), 4/32), ((1, 2), 2/32),
         ((2, -1), 2/32), ((2, 0), 3/32), ((2, 1), 2/32)]"
  using nth_distribute[OF assms(1,3,4,5), of y e]
  by (simp add: kernel_apply_def sierra_kernel_def)

theorem distribute_follows_kernel_table_witness:
  "(2::nat) < 6 \<and> (0::nat) < 3 \<and> (4::nat) < 6 \<and> (3::nat) < 6
   \<and> length ex_buffer = 6 * 3
   \<and> kernel_weight (int 0 - int 0) (int 4 - int 2) = Some (5 / 32)
   \<and> kernel_weight (int 0 - int 0) (int 3 - int 2) = None
   \<and> distributeErrorGrayscale ex_buffer 2 0 6 3 ex_error ! (0 * 6 + 4) =
        plus_assign (ex_buffer ! (0 * 6 + 4)) (js_mul ex_error (Val (5 / 32)))
   \<and> distributeErrorGrayscale ex_buffer 2 0 6 3 ex_error ! (0 * 6 + 4) = Val (- (167 / 16))
   \<and> distributeErrorGrayscale ex_buffer 2 0 6 3 ex_error ! (0 * 6 + 3) = Val 10"
proof -
  have l: "length ex_buffer = 6 * 3" by (simp add: ex_buffer_def)
  have k: "kernel_weight (int 0 - int 0) (int 4 - int 2) = Some (5 / 32)"
    "kernel_weight (int 0 - int 0) (int 3 - int 2) = None"
    by (simp_all add: kernel_weight_def sierra_kernel_def)
  have a: "(2::nat) < 6" "(0::nat) < 3" "(4::nat) < 6" "(3::nat) < 6" by simp_all
  note t4 = distribute_follows_kernel_table[OF a(1,2) a(3) a(2) l, of ex_error, THEN conjunct1]
  note t3 = distribute_follows_kernel_table[OF a(1,2) a(4) a(2) l, of ex_error, THEN conjunct1]
  have 4: "distributeErrorGrayscale ex_buffer 2 0 6 3 ex_error ! (0 * 6 + 4) =
        plus_assign (ex_buffer ! (0 * 6 + 4)) (js_mul ex_error (Val (5 / 32)))"
    using t4 unfolding k by simp
  have 3: "distributeErrorGrayscale ex_buffer 2 0 6 3 ex_error ! (0 * 6 + 3) = ex_buffer ! (0 * 6 + 3)"
    using t3 unfolding k by simp
  have v: "plus_assign (ex_buffer ! (0 * 6 + 4)) (js_mul ex_error (Val (5 / 32))) = Val (- (167 / 16))"
    "ex_buffer ! (0 * 6 + 3) = Val 10"
    by (simp_all add: ex_buffer_def ex_error_def eval_defs)
  show ?thesis using a l k 4 3 v by simp
qed

text \<open>
  C3. For an input whose data has \<open>width * height * 4\<close> bytes, the output has the width,
  height and data length of the input, and every pixel of the output has red, green and
  blue \<open>0\<close> and alpha \<open>0\<close> or \<open>255\<close>.
\<close>

theorem process_shape_and_stencil:
  assumes "length (data img) = 4 * width img * height img"
  shows "width (process img) = width img \<and> height (process img) = height img
    \<and> length (data (process img)) = length (data img)
    \<and> (\<forall>i < width img * height img.
          \<exists>a. rgba (data (process img)) i = [0, 0, 0, a] \<and> (a = 0 \<or> a = 255))"
proof -
  have "\<exists>a. rgba (data (process img)) i = [0, 0, 0, a] \<and> (a = 0 \<or> a = 255)"
    if "i < width img * height img" for i
  proof -
    have "i * 4 + 3 < length (data img)" using that assms by simp
    from rgba_process[OF this that] show ?thesis by simp
  qed
  then show ?thesis by (simp add: process_scan)
qed

theorem process_shape_and_stencil_witness:
  "length (data ex_img) = 4 * width ex_img * height ex_img
   \<and> width (process ex_img) = 2 \<and> height (process ex_img) = 1
   \<and> length (data (process ex_img)) = 8
   \<and> (\<exists>a. rgba (data (process ex_img)) 0 = [0, 0, 0, a] \<and> (a = 0 \<or> a = 255))
   \<and> (\<exists>a. rgba (data (process ex_img)) 1 = [0, 0, 0, a] \<and> (a = 0 \<or> a = 255))"
proof -
  have w: "width ex_img = 2" "height ex_img = 1" "length (data ex_img) = 8"
    by (simp_all add: ex_img_def)
  have a: "length (data ex_img) = 4 * width ex_img * height ex_img"
    by (simp add: w)
  note t = process_shape_and_stencil[OF a]
  have q: "\<exists>a. rgba (data (process ex_img)) i = [0, 0, 0, a] \<and> (a = 0 \<or> a = 255)"
    if "i < 2" for i
    using t that by (simp add: w)
  show ?thesis
    using t a q[of 0] q[of 1] by (simp add: w)
qed

text \<open>
  C4. When the scan starts, the luminance buffer holds, for every pixel of the input, the
  value of \<open>0.299 * R + 0.587 * G + 0.114 * B\<close> for that pixel, as the \<open>Float32Array\<close> keeps
  it: the whole buffer is computed from the original image before the first diffusion, and
  \<open>process\<close> is the scan that starts from it. The alpha bytes are not read: two inputs that
  differ in alpha bytes only have the same output.
\<close>

theorem luminance_before_diffusion:
  assumes "length (data img) = 4 * width img * height img"
    and "i < width img * height img"
    and "same_rgb (data img) d'"
  shows "scan_state img 0 = (map (luminance (data img)) [0..<width img * height img], data img)
    \<and> process img =
        img\<lparr>data := snd (fold (\<lambda>k. dither_pixel (width img) (height img)
                               (k div width img) (k mod width img))
                          [0..<width img * height img]
                          (map (luminance (data img)) [0..<width img * height img], data img))\<rparr>
    \<and> luminance (data img) i =
        store32 (weighted_sum (Val (of_nat (unat (data img ! (i * 4)))))
                   (Val (of_nat (unat (data img ! (i * 4 + 1)))))
                   (Val (of_nat (unat (data img ! (i * 4 + 2))))))
    \<and> rgba (data (process img)) 0 =
        (if js_less (luminance (data img) 0) (Val 60) then [0, 0, 0, 255] else [0, 0, 0, 0])
    \<and> process (img\<lparr>data := d'\<rparr>) = process img"
proof -
  have l: "i * 4 + 2 < length (data img)" using assms(1,2) by simp
  have l4: "length (data img) = 4 * (width img * height img)"
    using assms(1) by (simp add: mult.assoc)
  have z: "0 < width img * height img" "0 * 4 + 3 < length (data img)"
    using assms(2) l4 by linarith+
  have o: "oldPixel_at img 0 = luminance (data img) 0"
    using z(1) by (simp add: oldPixel_at_def gray_at_def scan_state_0 nth_to_grayscale)
  have 1: "scan_state img 0 = (map (luminance (data img)) [0..<width img * height img], data img)"
    by (simp add: scan_state_0 to_grayscale_map)
  have 2: "process img =
        img\<lparr>data := snd (fold (\<lambda>k. dither_pixel (width img) (height img)
                               (k div width img) (k mod width img))
                          [0..<width img * height img]
                          (map (luminance (data img)) [0..<width img * height img], data img))\<rparr>"
    unfolding process_scan by (simp add: scan_state_def to_grayscale_map Let_def)
  have 4: "rgba (data (process img)) 0 =
        (if js_less (luminance (data img) 0) (Val 60) then [0, 0, 0, 255] else [0, 0, 0, 0])"
    using rgba_process[OF z(2,1)] o by (simp add: newPixel_at_def)
  show ?thesis
    using 1 2 luminance_Val[OF l] 4 process_same_rgb[OF assms(3,1)] by blast
qed

theorem luminance_before_diffusion_witness:
  "length (data ex_img) = 4 * width ex_img * height ex_img
   \<and> Suc 0 < width ex_img * height ex_img
   \<and> same_rgb (data ex_img) (data ex_alpha)
   \<and> scan_state ex_img 0 = ([Val 10, Val (8139571 / 65536)], data ex_img)
   \<and> luminance (data ex_img) (Suc 0) = store32 (weighted_sum (Val 200) (Val 100) (Val 50))
   \<and> luminance (data ex_img) (Suc 0) = Val (8139571 / 65536)
   \<and> rgba (data (process ex_img)) 0 = [0, 0, 0, 255]
   \<and> data (process ex_img) = [0, 0, 0, 255, 0, 0, 0, 0]
   \<and> process (ex_img\<lparr>data := data ex_alpha\<rparr>) = process ex_img"
proof -
  have a: "length (data ex_img) = 4 * width ex_img * height ex_img" by (simp add: ex_img_dims)
  have b: "Suc 0 < width ex_img * height ex_img" by (simp add: ex_img_dims)
  have c: "same_rgb (data ex_img) (data ex_alpha)"
    by (simp add: same_rgb_def ex_img_def ex_alpha_def upt_rec)
  have d: "data ex_img ! 4 = 200" "data ex_img ! 5 = 100" "data ex_img ! 6 = 50"
    by (simp_all add: ex_img_def)
  have u: "[0..<2] = [0, Suc 0]" by (simp add: upt_rec)
  note t = luminance_before_diffusion[OF a b c]
  note t1 = t[THEN conjunct1]
  note t3 = t[THEN conjunct2, THEN conjunct2, THEN conjunct1]
  note t4 = t[THEN conjunct2, THEN conjunct2, THEN conjunct2, THEN conjunct1]
  note t5 = t[THEN conjunct2, THEN conjunct2, THEN conjunct2, THEN conjunct2]
  have 1: "scan_state ex_img 0 = ([Val 10, Val (8139571 / 65536)], data ex_img)"
    using t1 by (simp add: ex_img_dims u ex_img_luminance)
  have 3: "luminance (data ex_img) (Suc 0) = store32 (weighted_sum (Val 200) (Val 100) (Val 50))"
    using t3 by (simp add: d)
  have 4: "rgba (data (process ex_img)) 0 = [0, 0, 0, 255]"
    using t4 by (simp add: ex_img_luminance)
  have 5: "process (ex_img\<lparr>data := data ex_alpha\<rparr>) = process ex_img"
    using t5 .
  show ?thesis
    using a b c 1 3 4 5 ex_img_luminance(2) ex_img_process by simp
qed

text \<open>
  C5, as stated, fails in its last part. With the error \<open>0\<close> (a pixel of luminance \<open>0\<close> or
  \<open>255\<close>) the corner pixel \<open>(5, 2)\<close> of a 6x3 buffer and the interior pixel \<open>(2, 0)\<close> both
  diffuse the total \<open>0\<close>: the total of the corner is not strictly less. Nor is it for every
  nonzero error: in a buffer that holds \<open>100\<close> everywhere the error \<open>2 ^ -20\<close> is absorbed by
  the rounding of every store, at the interior pixel as at the corner.
\<close>

theorem zero_error_diffuses_equally:
  "interior 2 0 6 3 \<and> \<not> interior 5 2 6 3
   \<and> diffused (replicate 18 (Val 0)) 5 2 6 3 (Val 0) = 0
   \<and> diffused (replicate 18 (Val 0)) 2 0 6 3 (Val 0) = 0
   \<and> \<not> diffused (replicate 18 (Val 0)) 5 2 6 3 (Val 0)
         < diffused (replicate 18 (Val 0)) 2 0 6 3 (Val 0)
   \<and> diffused (replicate 18 (Val 100)) 5 2 6 3 (Val (1 / 2 ^ 20)) = 0
   \<and> diffused (replicate 18 (Val 100)) 2 0 6 3 (Val (1 / 2 ^ 20)) = 0"
proof -
  have "distributeErrorGrayscale (replicate 18 (Val 100)) 5 2 6 3 (Val (1 / 1048576)) =
      replicate 18 (Val 100)"
    by (simp add: distributeErrorGrayscale_def)
  then show ?thesis
    by (simp add: interior_def diffused_def distribute_zero small_error_is_absorbed)
qed

text \<open>
  C5, amended. Diffusion from a pixel keeps the length of the buffer and touches the entry at
  each coordinate inside \<open>[0, width) x [0, height)\<close> by the statement of that entry's own
  offset only: a contribution whose target is out of bounds is added nowhere (not wrapped,
  not clamped, not redistributed). The weights of the contributions that are written sum to
  \<open>1\<close> at an interior pixel and to a value in \<open>[0, 1)\<close> at every other pixel: near an edge
  strictly less of the error is handed on than in the interior.
\<close>

theorem edge_truncation:
  assumes "x < w" "y < h" and "length g = w * h"
  shows "length (distributeErrorGrayscale g x y w h e) = w * h
    \<and> (\<forall>tx ty. tx < w \<and> ty < h \<longrightarrow>
          distributeErrorGrayscale g x y w h e ! (ty * w + tx) =
            kernel_apply (int ty - int y) (int tx - int x) e (g ! (ty * w + tx)))
    \<and> (interior x y w h \<longrightarrow> inbounds_weight x y w h = 1)
    \<and> (\<not> interior x y w h \<longrightarrow> 0 \<le> inbounds_weight x y w h \<and> inbounds_weight x y w h < 1)"
proof -
  have 1: "distributeErrorGrayscale g x y w h e ! (ty * w + tx) =
      kernel_apply (int ty - int y) (int tx - int x) e (g ! (ty * w + tx))"
    if "tx < w" "ty < h" for tx ty
    using nth_distribute[OF assms(1) that assms(3), of y e] .
  show ?thesis
    using 1 assms(3) inbounds_weight_interior inbounds_weight_edge inbounds_weight_nonneg
    by simp
qed

theorem edge_truncation_witness:
  "(5::nat) < 6 \<and> (2::nat) < 3 \<and> length ex_buffer = 6 * 3
   \<and> \<not> interior 5 2 6 3
   \<and> inbounds_weight 5 2 6 3 = 0
   \<and> inbounds_weight 0 0 6 3 = 3 / 4
   \<and> length (distributeErrorGrayscale ex_buffer 5 2 6 3 ex_error) = 6 * 3
   \<and> distributeErrorGrayscale ex_buffer 5 2 6 3 ex_error ! (2 * 6 + 1) = Val 10"
proof -
  have a: "(5::nat) < 6" "(2::nat) < 3" "length ex_buffer = 6 * 3"
    by (simp_all add: ex_buffer_def)
  have b: "\<not> interior 5 2 6 3" by (simp add: interior_def)
  have c: "inbounds_weight 5 2 6 3 = 0" "inbounds_weight 0 0 6 3 = 3 / 4"
    by (simp_all add: inbounds_weight_def kernel_writes_def)
  note t = edge_truncation[OF a, of ex_error]
  have "(1::nat) < 6 \<and> (2::nat) < 3" by simp
  from t[THEN conjunct2, THEN conjunct1, rule_format, OF this]
  have "distributeErrorGrayscale ex_buffer 5 2 6 3 ex_error ! (2 * 6 + 1) =
      kernel_apply (int 2 - int 2) (int 1 - int 5) ex_error (ex_buffer ! (2 * 6 + 1))" .
  then have d: "distributeErrorGrayscale ex_buffer 5 2 6 3 ex_error ! (2 * 6 + 1) = Val 10"
    by (simp add: kernel_apply_def kernel_weight_def sierra_kernel_def ex_buffer_def)
  show ?thesis using a b c d t by simp
qed

text \<open>
  C6, as stated, fails. \<open>process\<close> does not reject the zero-sized input: it returns it, as a
  no-op.
\<close>

theorem zero_sized_input_is_not_rejected:
  "process \<lparr>width = 0, height = 0, data = []\<rparr> = \<lparr>width = 0, height = 0, data = []\<rparr>"
  by (simp add: process_def to_grayscale_def)

text \<open>
  C6, amended. \<open>process\<close> validates nothing and rejects nothing: for every input it returns
  an image of the same width, height and data length, and for an input of width \<open>0\<close> or
  height \<open>0\<close> it returns the input unmodified. An image without dimensions is turned away
  before \<open>process\<close> is called, by the guard of \<open>processCard\<close>, which lets only positive
  dimensions through.
\<close>

theorem process_does_not_validate:
  "(width img = 0 \<or> height img = 0 \<longrightarrow> process img = img)
   \<and> width (process img) = width img \<and> height (process img) = height img
   \<and> length (data (process img)) = length (data img)
   \<and> (processCard_dimensions nw iw nh ih = Some (cw, ch) \<longrightarrow> 0 < cw \<and> 0 < ch)
   \<and> (processCard_dimensions nw iw nh ih = None \<longleftrightarrow> (nw = 0 \<and> iw = 0) \<or> (nh = 0 \<and> ih = 0))"
proof -
  have "process img = img" if "width img = 0 \<or> height img = 0"
  proof -
    have z: "width img * height img = 0" using that by auto
    have "snd (scan_state img (width img * height img)) = data img"
      unfolding z by (simp add: scan_state_0)
    then show ?thesis unfolding process_scan by simp
  qed
  moreover have "0 < cw \<and> 0 < ch" if "processCard_dimensions nw iw nh ih = Some (cw, ch)"
    using that by (auto simp: processCard_dimensions_def Let_def split: if_splits)
  moreover have "processCard_dimensions nw iw nh ih = None \<longleftrightarrow>
      (nw = 0 \<and> iw = 0) \<or> (nh = 0 \<and> ih = 0)"
    by (auto simp: processCard_dimensions_def Let_def split: if_splits)
  ultimately show ?thesis by (simp add: process_scan)
qed

theorem process_does_not_validate_witness:
  "process \<lparr>width = 0, height = 5, data = [1, 2, 3, 4]\<rparr>
     = \<lparr>width = 0, height = 5, data = [1, 2, 3, 4]\<rparr>
   \<and> processCard_dimensions 0 3 0 2 = Some (3, 2)
   \<and> processCard_dimensions 0 0 7 7 = None"
proof -
  have a: "width \<lparr>width = 0, height = 5, data = [1, 2, 3, 4]\<rparr> = 0" by simp
  have b: "processCard_dimensions 0 3 0 2 = Some (3, 2)"
    "processCard_dimensions 0 0 7 7 = None"
    by (simp_all add: processCard_dimensions_def)
  show ?thesis
    using process_does_not_validate[of "\<lparr>width = 0, height = 5, data = [1, 2, 3, 4]\<rparr>"] a b
    by simp
qed

text \<open>
  C7, as stated, fails in its second part. At the interior pixel \<open>(2, 0)\<close> of a 6x3 buffer
  that holds \<open>10\<close> everywhere, the error \<open>-130.8000030517578\<close> changes the total of the buffer
  by \<open>-130.8000020980835\<close>: every \<open>+=\<close> rounds its sum to binary32, and the error is not
  conserved exactly.
\<close>

theorem interior_error_is_not_conserved:
  "interior 2 0 6 3 \<and> ex_error = Val (- (8572109 / 65536))
   \<and> diffused ex_buffer 2 0 6 3 ex_error = - (137153743 / 1048576)
   \<and> diffused ex_buffer 2 0 6 3 ex_error \<noteq> - (8572109 / 65536)"
proof -
  have "diffused ex_buffer 2 0 6 3 ex_error = - (137153743 / 1048576)"
    by (rule ex_buffer_diffused)
  moreover have "ex_error = Val (- (8572109 / 65536))"
    by (simp add: ex_error_def)
  moreover have "interior 2 0 6 3"
    by (simp add: interior_def)
  ultimately show ?thesis by simp
qed

text \<open>
  C7, amended. The ten weights that \<open>distributeErrorGrayscale\<close> reads from \<open>this.matrix\<close>, and
  the ten weights of the table of the specification, sum to exactly \<open>1\<close>. At an interior
  pixel all ten targets lie in the buffer and all ten statements run, each adding the error
  times its weight to its target, so the weights that are written sum to \<open>1\<close> and the ten
  products of the error and a weight sum to the error. The conservation is one of these
  products: what reaches the buffer is each sum rounded to binary32.
\<close>

theorem kernel_weights_sum_to_one:
  assumes "interior x y w h" and "length g = w * h"
  shows "matrix ! 0 ! 2 + matrix ! 0 ! 3
         + matrix ! 1 ! 0 + matrix ! 1 ! 1 + matrix ! 1 ! 2 + matrix ! 1 ! 3 + matrix ! 1 ! 4
         + matrix ! 2 ! 1 + matrix ! 2 ! 2 + matrix ! 2 ! 3 = 1
       \<and> sum_list (map snd sierra_kernel) = 1
       \<and> (\<forall>((dy, dx), wt) \<in> set sierra_kernel.
             0 \<le> int x + dx \<and> int x + dx < int w \<and> int y + dy < int h
             \<and> distributeErrorGrayscale g x y w h e ! (nat (int y + dy) * w + nat (int x + dx)) =
                 plus_assign (g ! (nat (int y + dy) * w + nat (int x + dx))) (js_mul e (Val wt)))
       \<and> map fst (kernel_writes x y w h) = replicate 10 True
       \<and> inbounds_weight x y w h = 1
       \<and> sum_list (map (\<lambda>(b, cx, cy, wt). r * wt) (kernel_writes x y w h)) = r"
  using matrix_weights_sum kernel_sum interior_targets[OF assms] interior_guards[OF assms(1)]
    inbounds_weight_interior[OF assms(1)] kernel_writes_products
  by simp

theorem kernel_weights_sum_to_one_witness:
  "interior 2 0 6 3 \<and> length ex_buffer = 6 * 3
   \<and> distributeErrorGrayscale ex_buffer 2 0 6 3 ex_error ! 4 =
       plus_assign (ex_buffer ! 4) (js_mul ex_error (Val (5 / 32)))
   \<and> map fst (kernel_writes 2 0 6 3) = replicate 10 True
   \<and> inbounds_weight 2 0 6 3 = 1
   \<and> sum_list (map (\<lambda>(b, cx, cy, wt). 32 * wt) (kernel_writes 2 0 6 3)) = 32"
proof -
  have a: "interior 2 0 6 3" by (simp add: interior_def)
  have l: "length ex_buffer = 6 * 3" by (simp add: ex_buffer_def)
  have m: "((0, 2), 5 / 32) \<in> set sierra_kernel" by (simp add: sierra_kernel_def)
  note t = kernel_weights_sum_to_one[OF a l, of ex_error 32]
  note t3 = t[THEN conjunct2, THEN conjunct2, THEN conjunct1, rule_format, OF m]
  note t4 = t[THEN conjunct2, THEN conjunct2, THEN conjunct2]
  have "distributeErrorGrayscale ex_buffer 2 0 6 3 ex_error ! 4 =
       plus_assign (ex_buffer ! 4) (js_mul ex_error (Val (5 / 32)))"
    using t3 by simp
  then show ?thesis using a l t4 by simp
qed

text \<open>
  C8. The scan is a single forward pass. Diffusion from pixel \<open>i\<close> changes no entry of the
  luminance buffer at or before position \<open>i\<close>. The luminance that pixel \<open>i\<close> is classified
  by is its original luminance with the error of every earlier pixel of the scan diffused
  into it, one pixel after the other, and nothing changes that entry afterwards: the pixel of
  the output is black or transparent according to that accumulated luminance.
\<close>

theorem single_forward_pass:
  assumes "i < width img * height img" and "length (data img) = 4 * width img * height img"
  shows "(\<forall>g e j. length g = width img * height img \<and> j \<le> i \<longrightarrow>
            distributeErrorGrayscale g (i mod width img) (i div width img)
              (width img) (height img) e ! j = g ! j)
    \<and> oldPixel_at img i = fold (diffuse_from img i) [0..<i] (luminance (data img) i)
    \<and> (\<forall>n. i \<le> n \<and> n \<le> width img * height img \<longrightarrow>
           fst (scan_state img n) ! i = oldPixel_at img i)
    \<and> final_gray img ! i = oldPixel_at img i
    \<and> rgba (data (process img)) i =
         (if js_less (oldPixel_at img i) (Val 60) then [0, 0, 0, 255] else [0, 0, 0, 0])"
proof -
  let ?w = "width img" and ?h = "height img"
  have w: "0 < ?w" using assms(1) by (cases "?w") auto
  have x: "i mod ?w < ?w" using w by simp
  have y: "i div ?w < ?h" using assms(1) by (simp add: less_mult_imp_div_less mult.commute)
  have o: "oldPixel_at img i = fst (scan_state img i) ! i"
    using assms(1) by (simp add: oldPixel_at_def gray_at_def)
  have 1: "distributeErrorGrayscale g (i mod ?w) (i div ?w) ?w ?h e ! j = g ! j"
    if "length g = ?w * ?h" "j \<le> i" for g e j
    by (rule distribute_forward[OF x y that(1)]) (use that(2) in simp)
  have 2: "oldPixel_at img i = fold (diffuse_from img i) [0..<i] (luminance (data img) i)"
    unfolding o using assms(1) by (intro scan_state_accumulates) simp_all
  have 3: "fst (scan_state img n) ! i = oldPixel_at img i"
    if "i \<le> n" "n \<le> ?w * ?h" for n
    unfolding o using that by (rule scan_state_settled)
  have 4: "final_gray img ! i = oldPixel_at img i"
    unfolding final_gray_def using assms(1) by (intro 3) simp_all
  have "i * 4 + 3 < length (data img)" using assms by simp
  from rgba_process[OF this assms(1)]
  have 5: "rgba (data (process img)) i =
      (if js_less (oldPixel_at img i) (Val 60) then [0, 0, 0, 255] else [0, 0, 0, 0])"
    by (simp add: newPixel_at_def)
  show ?thesis using 1 2 3 4 5 by blast
qed

theorem single_forward_pass_witness:
  "(2::nat) < width ex_scan * height ex_scan
   \<and> length (data ex_scan) = 4 * width ex_scan * height ex_scan
   \<and> luminance (data ex_scan) 2 = Val 55
   \<and> diffuse_from ex_scan 2 0 (Val 55) = Val (1005 / 16)
   \<and> diffuse_from ex_scan 2 1 (Val (1005 / 16)) = Val (1005 / 16)
   \<and> oldPixel_at ex_scan 2 = Val (1005 / 16)
   \<and> final_gray ex_scan ! 2 = Val (1005 / 16)
   \<and> rgba (data (process ex_scan)) 2 = [0, 0, 0, 0]"
proof -
  have a: "(2::nat) < width ex_scan * height ex_scan" by (simp add: ex_scan_dims)
  have b: "length (data ex_scan) = 4 * width ex_scan * height ex_scan"
    by (simp add: ex_scan_dims)
  have l: "luminance (data ex_scan) 2 = Val 55"
    using ex_scan_luminance(3) by (simp add: numeral_2_eq_2)
  have e0: "error_at ex_scan 0 = Val 50"
    by (simp add: error_at_def newPixel_at_def oldPixel_at_def ex_scan_0 gray_at_def round_defs)
  have c: "diffuse_from ex_scan 2 0 (Val 55) = Val (1005 / 16)"
    by (simp add: diffuse_from_def ex_scan_dims e0 kernel_apply_def kernel_weight_def
        sierra_kernel_def eval_defs)
  have d: "diffuse_from ex_scan 2 (Suc 0) v = v" for v
    by (simp add: diffuse_from_def ex_scan_dims kernel_apply_def kernel_weight_def
        sierra_kernel_def)
  have u: "[0..<2] = [0, Suc 0]" by (simp add: upt_rec)
  note t = single_forward_pass[OF a b]
  have o: "oldPixel_at ex_scan 2 = Val (1005 / 16)"
    using t by (simp add: l c d u)
  have f: "final_gray ex_scan ! 2 = Val (1005 / 16)"
    using t o by simp
  have r: "rgba (data (process ex_scan)) 2 = [0, 0, 0, 0]"
    using t o by simp
  show ?thesis using a b l c d[of "Val (1005 / 16)"] o f r by simp
qed

text \<open>
  C9, as stated, fails. On a row of four pixels of luminance \<open>10\<close> the kernel does write:
  pixel \<open>0\<close> has its targets at columns \<open>2\<close> and \<open>3\<close> inside the row, pixel \<open>1\<close> its target at
  column \<open>3\<close>. The luminance buffer at the end of the scan is not the one the scan started
  from.
\<close>

theorem row_of_four_propagates_error:
  "final_gray ex_row \<noteq> to_grayscale (width ex_row) (height ex_row) (data ex_row)"
proof -
  have four: "Suc (Suc (Suc (Suc 0))) = 4" by simp
  have "final_gray ex_row = [Val 10, Val 10, Val (185 / 16), Val (25 / 2)]"
    using row_of_four_steps(5)[OF ex_row_dims(1,2) ex_row_luminance_all]
    by (simp add: final_gray_def ex_row_dims four)
  moreover have "to_grayscale (width ex_row) (height ex_row) (data ex_row)
      = [Val 10, Val 10, Val 10, Val 10]"
    using row_of_four_steps(1)[OF ex_row_dims(1,2) ex_row_luminance_all]
    by (simp add: scan_state_0)
  ultimately show ?thesis by simp
qed

text \<open>
  C9, amended. For a 4x1 image whose four pixels have luminance \<open>10\<close>, the output is four
  opaque black pixels. Error does propagate inside the row: the buffer ends as
  \<open>10, 10, 11.5625, 12.5\<close>, every entry still below the threshold \<open>60\<close>.
\<close>

theorem row_of_four_dark_pixels:
  assumes "width img = 4" "height img = 1" "length (data img) = 16"
    and "\<forall>i < 4. luminance (data img) i = Val 10"
  shows "(\<forall>i < 4. rgba (data (process img)) i = [0, 0, 0, 255])
    \<and> final_gray img = [Val 10, Val 10, Val (185 / 16), Val (25 / 2)]"
proof -
  note s = row_of_four_steps[OF assms(1,2,4)]
  have four: "Suc (Suc (Suc (Suc 0))) = 4" by simp
  have fin: "final_gray img = [Val 10, Val 10, Val (185 / 16), Val (25 / 2)]"
    using s(5) by (simp add: final_gray_def assms(1,2) four)
  have "rgba (data (process img)) i = [0, 0, 0, 255]" if "i < 4" for i
  proof -
    have "i = 0 \<or> i = Suc 0 \<or> i = Suc (Suc 0) \<or> i = Suc (Suc (Suc 0))" using that by auto
    then have "newPixel_at img i = 0" using s(6-9) by auto
    moreover have "i * 4 + 3 < length (data img)" "i < width img * height img"
      using that assms(1,2,3) by simp_all
    ultimately show ?thesis using rgba_process[of i img] by simp
  qed
  then show ?thesis using fin by simp
qed

theorem row_of_four_dark_pixels_witness:
  "width ex_row = 4 \<and> height ex_row = 1 \<and> length (data ex_row) = 16
   \<and> luminance (data ex_row) 0 = Val 10 \<and> luminance (data ex_row) 1 = Val 10
   \<and> luminance (data ex_row) 2 = Val 10 \<and> luminance (data ex_row) 3 = Val 10
   \<and> rgba (data (process ex_row)) 0 = [0, 0, 0, 255]
   \<and> rgba (data (process ex_row)) 1 = [0, 0, 0, 255]
   \<and> rgba (data (process ex_row)) 2 = [0, 0, 0, 255]
   \<and> rgba (data (process ex_row)) 3 = [0, 0, 0, 255]
   \<and> final_gray ex_row = [Val 10, Val 10, Val (185 / 16), Val (25 / 2)]"
proof -
  note t = row_of_four_dark_pixels[OF ex_row_dims ex_row_luminance_all]
  have "rgba (data (process ex_row)) i = [0, 0, 0, 255]" if "i < 4" for i
    using t that by simp
  from this[of 0] this[of 1] this[of 2] this[of 3] show ?thesis
    using t ex_row_dims ex_row_luminance_all by simp
qed

text \<open>
  C10. Running \<open>process\<close> on its own output makes every pixel opaque black: the first run
  sets red, green and blue of every pixel to \<open>0\<close>, so the second run starts from luminance
  \<open>0\<close> everywhere, diffuses the error \<open>0\<close>, and classifies every pixel as black. Hence
  \<open>process\<close> is not idempotent on any input whose output has a transparent pixel.
\<close>

theorem redither_is_all_black:
  assumes "length (data img) = 4 * width img * height img"
    and "i < width img * height img"
  shows "rgba (data (process (process img))) i = [0, 0, 0, 255]
    \<and> (rgba (data (process img)) i = [0, 0, 0, 0] \<longrightarrow> process (process img) \<noteq> process img)"
proof -
  have b: "rgba (data (process (process img))) i = [0, 0, 0, 255]"
    using assms by (rule process_twice_black)
  have "process (process img) \<noteq> process img" if "rgba (data (process img)) i = [0, 0, 0, 0]"
  proof
    assume "process (process img) = process img"
    then have "rgba (data (process (process img))) i = [0, 0, 0, 0]" using that by simp
    then show False using b by simp
  qed
  then show ?thesis using b by simp
qed

theorem redither_is_all_black_witness:
  "length (data ex_img) = 4 * width ex_img * height ex_img
   \<and> (1::nat) < width ex_img * height ex_img
   \<and> rgba (data (process ex_img)) 1 = [0, 0, 0, 0]
   \<and> rgba (data (process (process ex_img))) 1 = [0, 0, 0, 255]
   \<and> process (process ex_img) \<noteq> process ex_img"
proof -
  have w: "width ex_img = 2" "height ex_img = 1" "length (data ex_img) = 8"
    by (simp_all add: ex_img_def)
  have a: "length (data ex_img) = 4 * width ex_img * height ex_img" by (simp add: w)
  have b: "(1::nat) < width ex_img * height ex_img" by (simp add: w)
  have c: "rgba (data (process ex_img)) 1 = [0, 0, 0, 0]"
    by (simp add: rgba_def ex_img_process)
  show ?thesis
    using redither_is_all_black[OF a b] a b c by simp
qed

end
